theory Spec2Isabelle
  imports Complex_Main
begin

unbundle bit_operations_syntax

section \<open>Python values shared by the modules\<close>

text \<open>
  The exceptions the modelled code can raise. A function that can raise returns
  \<open>py_error + 'a\<close>, with \<open>Inl\<close> for the exception.
\<close>

datatype py_error = ValueError | IndexError | OverflowError | TypeError

text \<open>
  Subscripting a Python list with an integer: a negative subscript counts from the end,
  anything outside \<open>[-len, len)\<close> raises IndexError. \<open>py_index\<close> returns the position
  that is read or written, or \<open>None\<close> for the IndexError.
\<close>

definition py_index :: "'a list \<Rightarrow> int \<Rightarrow> nat option" where
  "py_index xs i =
     (if 0 \<le> i \<and> i < int (length xs) then Some (nat i)
      else if i < 0 \<and> - int (length xs) \<le> i then Some (nat (int (length xs) + i))
      else None)"

section \<open>subset\_permutation.py\<close>

record SubsetPermutation =
  gr_subset :: "int list"
  target_subset :: "int list"

text \<open>
  The loop \<^verbatim>\<open>while j < d: used[j] = True; j = target_subset[j]; cycle.append(j)\<close>
  of \<^verbatim>\<open>permutation_cycles\<close>. Nothing in the source bounds its number of iterations, so it
  is a partial function: \<open>None\<close> is "the loop never exits", \<open>Some (Inl e)\<close> is an exception
  and \<open>Some (Inr (used, cycle))\<close> is the state at the exit.
\<close>

partial_function (option) follow_cycle ::
  "int list \<Rightarrow> bool list \<Rightarrow> int \<Rightarrow> int list \<Rightarrow> (py_error + bool list \<times> int list) option"
where
  "follow_cycle target used j cycle =
     (if j < int (length target) then
        (case py_index used j of
           None \<Rightarrow> Some (Inl IndexError)
         | Some p \<Rightarrow>
             (case py_index target j of
                None \<Rightarrow> Some (Inl IndexError)
              | Some q \<Rightarrow> follow_cycle target (used[p := True]) (target ! q) (cycle @ [target ! q])))
      else Some (Inr (used, cycle)))"

declare follow_cycle.simps [code]

text \<open>
  The loop \<^verbatim>\<open>for i in range(d)\<close>, over the indices still to visit, with the list
  \<^verbatim>\<open>used\<close> and the cycles collected so far.
\<close>

fun scan_indices ::
  "int list \<Rightarrow> nat list \<Rightarrow> bool list \<Rightarrow> int list list \<Rightarrow> (py_error + int list list) option"
where
  "scan_indices target [] used cycles = Some (Inr cycles)"
| "scan_indices target (i # rest) used cycles =
     (if used ! i \<or> target ! i = int i then scan_indices target rest used cycles
      else
        (case follow_cycle target used (target ! i) [int i, target ! i] of
           None \<Rightarrow> None
         | Some (Inl e) \<Rightarrow> Some (Inl e)
         | Some (Inr (used', cycle)) \<Rightarrow> scan_indices target rest used' (cycles @ [cycle])))"

definition permutation_cycles :: "SubsetPermutation \<Rightarrow> (py_error + int list list) option" where
  "permutation_cycles self =
     (let d = length (target_subset self)
      in scan_indices (target_subset self) [0..<d] (replicate d False) [])"

section \<open>Binary renderings\<close>

definition bit_char :: "nat \<Rightarrow> char" where
  "bit_char b = (if b = 0 then CHR ''0'' else CHR ''1'')"

text \<open>\<^verbatim>\<open>bin(i)[2:]\<close> for \<open>i \<ge> 0\<close>: the binary digits, most significant first, \<open>''0''\<close> for 0.\<close>

fun bin_digits :: "nat \<Rightarrow> string" where
  "bin_digits i = (if i < 2 then [bit_char i] else bin_digits (i div 2) @ [bit_char (i mod 2)])"

declare bin_digits.simps [simp del]

text \<open>
  \<^verbatim>\<open>bin(x)[2:]\<close> for any integer: \<^verbatim>\<open>bin(-3)\<close> is \<^verbatim>\<open>'-0b11'\<close>, so the slice keeps
  the \<^verbatim>\<open>b\<close> when \<open>x\<close> is negative.
\<close>

definition bin_tail :: "int \<Rightarrow> string" where
  "bin_tail x = (if 0 \<le> x then bin_digits (nat x) else CHR ''b'' # bin_digits (nat (- x)))"

text \<open>\<^verbatim>\<open>str.zfill(width)\<close>: zeros on the left, after a leading sign; never truncates.\<close>

definition zfill :: "nat \<Rightarrow> string \<Rightarrow> string" where
  "zfill width s =
     (case s of
        [] \<Rightarrow> replicate width (CHR ''0'')
      | c # rest \<Rightarrow>
          if c = CHR ''+'' \<or> c = CHR ''-''
          then c # replicate (width - length s) (CHR ''0'') @ rest
          else replicate (width - length s) (CHR ''0'') @ s)"

text \<open>
  The format \<^verbatim>\<open>f"{x:0{width}b}"\<close>: binary digits padded with zeros to \<open>width\<close>
  characters, the sign of a negative number included in the width.
\<close>

definition format_0b :: "nat \<Rightarrow> int \<Rightarrow> string" where
  "format_0b width x =
     (if 0 \<le> x
      then replicate (width - length (bin_digits (nat x))) (CHR ''0'') @ bin_digits (nat x)
      else CHR ''-'' # replicate (width - 1 - length (bin_digits (nat (- x)))) (CHR ''0'')
             @ bin_digits (nat (- x)))"

text \<open>\<^verbatim>\<open>int(ch)\<close> on a one-character string: a decimal digit, or ValueError.\<close>

definition int_of_char :: "char \<Rightarrow> py_error + nat" where
  "int_of_char ch =
     (if ch = CHR ''0'' then Inr 0 else if ch = CHR ''1'' then Inr 1
      else if ch = CHR ''2'' then Inr 2 else if ch = CHR ''3'' then Inr 3
      else if ch = CHR ''4'' then Inr 4 else if ch = CHR ''5'' then Inr 5
      else if ch = CHR ''6'' then Inr 6 else if ch = CHR ''7'' then Inr 7
      else if ch = CHR ''8'' then Inr 8 else if ch = CHR ''9'' then Inr 9
      else Inl ValueError)"

text \<open>A comprehension whose element expression can raise: the first exception wins.\<close>

fun map_raising :: "('a \<Rightarrow> py_error + 'b) \<Rightarrow> 'a list \<Rightarrow> py_error + 'b list" where
  "map_raising f [] = Inr []"
| "map_raising f (x # xs) =
     (case f x of
        Inl e \<Rightarrow> Inl e
      | Inr y \<Rightarrow> (case map_raising f xs of Inl e \<Rightarrow> Inl e | Inr ys \<Rightarrow> Inr (y # ys)))"

text \<open>Reading a list at a non-negative subscript.\<close>

definition py_nth :: "'a list \<Rightarrow> nat \<Rightarrow> py_error + 'a" where
  "py_nth xs i = (if i < length xs then Inr (xs ! i) else Inl IndexError)"

text \<open>
  \<^verbatim>\<open>math.ceil(math.log2(n))\<close> and \<^verbatim>\<open>math.ceil(np.log2(n))\<close> for \<open>n \<ge> 1\<close>, computed on
  the integers. The source goes through a logarithm in double precision; this function
  takes the logarithm as exact (lemma \<open>ceil_log2_eq\<close> below ties it to \<open>\<lceil>log 2 n\<rceil>\<close>).
  The two agree for \<open>n \<le> 2\<^sup>4\<^sup>6\<close> when the library's logarithm is accurate to one unit in
  the last place (lemma \<open>ceil_library_log\<close>); from \<open>2\<^sup>4\<^sup>9 + 1\<close> on they differ at the
  numbers just above a power of two, where the double of the logarithm is a whole
  number. \<open>control_tag_double\<close> below keeps the logarithm in double precision.
\<close>

fun ceil_log2 :: "nat \<Rightarrow> nat" where
  "ceil_log2 n = (if n < 2 then 0 else ceil_log2 ((n - 1) div 2 + 1) + 1)"

declare ceil_log2.simps [simp del]

section \<open>grover\_rudolph\_angles.py\<close>

text \<open>
  An object of the class holds \<^verbatim>\<open>self.card\<close> only; the constructor refuses
  \<open>card \<le> 2\<close>, so the field is a natural number.
\<close>

definition GroverRudolphAngles :: "int \<Rightarrow> py_error + nat" where
  "GroverRudolphAngles c = (if c \<le> 2 then Inl ValueError else Inr (nat c))"

text \<open>
  The loop \<^verbatim>\<open>for i in range(num_strings_at_length)\<close> of
  \<^verbatim>\<open>generate_prefix_binary_sequence\<close>, over the values of \<open>i\<close> still to come. The flag
  says whether the \<^verbatim>\<open>return\<close> inside the loop was taken.
\<close>

fun append_level :: "nat \<Rightarrow> nat \<Rightarrow> nat list \<Rightarrow> string list \<Rightarrow> string list \<times> bool" where
  "append_level num_to_generate len [] result_list = (result_list, False)"
| "append_level num_to_generate len (i # rest) result_list =
     (let result_list' = result_list @ [zfill len (bin_digits i)]
      in if length result_list' = num_to_generate then (result_list', True)
         else append_level num_to_generate len rest result_list')"

text \<open>The loop \<^verbatim>\<open>while len(result_list) < num_to_generate\<close>.\<close>

function prefix_loop :: "nat \<Rightarrow> string list \<Rightarrow> nat \<Rightarrow> string list" where
  "prefix_loop num_to_generate result_list len =
     (if length result_list < num_to_generate then
        (case append_level num_to_generate len [0..<2 ^ len] result_list of
           (result_list', True) \<Rightarrow> result_list'
         | (result_list', False) \<Rightarrow> prefix_loop num_to_generate result_list' (len + 1))
      else result_list)"
  by pat_completeness auto
termination
proof (relation
    "measure (\<lambda>(num_to_generate, result_list, len). num_to_generate - length result_list)",
    goal_cases)
  case 1
  show ?case by simp
next
  case (2 num_to_generate result_list len result_list' returned)
  have grow: "append_level n l todo acc = (acc', r) \<Longrightarrow>
      length acc + (if todo = [] then 0 else 1) \<le> length acc'"
    for n l todo acc acc' r
  proof (induction todo arbitrary: acc)
    case Nil
    then show ?case by simp
  next
    case (Cons i rest)
    then show ?case by (fastforce simp: Let_def split: if_splits)
  qed
  have "[0..<2 ^ len] \<noteq> ([] :: nat list)" by simp
  with grow[of num_to_generate len "[0..<2 ^ len]" result_list result_list' returned] 2
  have "length result_list < length result_list'"
    by (simp split: if_splits)
  with 2 show ?case by simp
qed

declare prefix_loop.simps [simp del]

definition generate_prefix_binary_sequence :: "nat \<Rightarrow> string list" where
  "generate_prefix_binary_sequence cardinality =
     (if cardinality \<le> 2 then [] else prefix_loop (cardinality - 2) [] 1)"

text \<open>
  \<^verbatim>\<open>partition_counter\<close>. The subscript \<^verbatim>\<open>i[1][0]\<close> raises IndexError on an empty
  remainder, in the comprehension of \<^verbatim>\<open>list_N0\<close>.
\<close>

definition partition_counter :: "nat \<Rightarrow> string \<Rightarrow> py_error + nat \<times> nat" where
  "partition_counter cardinality prefix =
     (if cardinality \<le> 2 then Inl ValueError
      else
        let n = ceil_log2 cardinality;
            l = length prefix;
            bin_vals = map (\<lambda>i. format_0b n (int i)) [0..<cardinality];
            rev_bin_vals = map rev bin_vals;
            cond_bin_vals = map (\<lambda>i. (i, drop l i)) (filter (\<lambda>i. take l i = prefix) rev_bin_vals)
        in if list_ex (\<lambda>i. snd i = []) cond_bin_vals then Inl IndexError
           else Inr (length (filter (\<lambda>i. hd (snd i) = CHR ''0'') cond_bin_vals),
                     length (filter (\<lambda>i. hd (snd i) = CHR ''1'') cond_bin_vals)))"

text \<open>
  \<^verbatim>\<open>partition_angle\<close>. The angle is a float in the source and a real number here; the
  quotient is in \<open>[0, 1]\<close>, so neither the square root nor the arc cosine can fail.
\<close>

definition partition_angle :: "nat \<Rightarrow> nat \<Rightarrow> py_error + real" where
  "partition_angle N0 N1 =
     (if N0 + N1 = 0 then Inl ValueError
      else Inr (2 * arccos (sqrt (real N0 / real (N0 + N1)))))"

text \<open>The loop \<^verbatim>\<open>for prefix in binary_sequence\<close> of \<^verbatim>\<open>get_angles\<close>.\<close>

fun angles_loop :: "nat \<Rightarrow> string list \<Rightarrow> real list \<Rightarrow> py_error + real list" where
  "angles_loop cardinality [] angle_lst = Inr angle_lst"
| "angles_loop cardinality (prefix # rest) angle_lst =
     (case partition_counter cardinality prefix of
        Inl e \<Rightarrow> Inl e
      | Inr (N0, N1) \<Rightarrow>
          (case partition_angle N0 N1 of
             Inl e \<Rightarrow> Inl e
           | Inr angle \<Rightarrow> angles_loop cardinality rest (angle_lst @ [angle])))"

definition get_angles :: "nat \<Rightarrow> py_error + real list" where
  "get_angles cardinality =
     angles_loop cardinality ([] # generate_prefix_binary_sequence cardinality) []"

text \<open>The call \<^verbatim>\<open>GroverRudolphAngles(c).get_angles()\<close>.\<close>

definition angles_of_cardinality :: "int \<Rightarrow> py_error + real list" where
  "angles_of_cardinality c =
     (case GroverRudolphAngles c of Inl e \<Rightarrow> Inl e | Inr cardinality \<Rightarrow> get_angles cardinality)"

section \<open>Circuits\<close>

text \<open>
  The qubits the code creates are \<^verbatim>\<open>cirq.NamedQubit(f'x{i}')\<close> and
  \<^verbatim>\<open>cirq.NamedQubit('ancilla')\<close>; a circuit is the list of its operations, in the order
  in which they are appended or yielded.
\<close>

datatype qubit = XQubit nat | AncillaQubit

text \<open>
  The gate object \<^verbatim>\<open>gray_code_gate(num_qubits, binary_str_1, binary_str_2)\<close> of
  permutation\_circuits.py.
\<close>

record gray_code_gate =
  gcg_num_qubits :: nat
  binary_str_1 :: string
  binary_str_2 :: string

text \<open>
  The operations: \<^verbatim>\<open>cirq.Ry(rads=a).on(q)\<close>; \<^verbatim>\<open>cirq.X(q)\<close>; a rotation and a flip under
  \<^verbatim>\<open>.controlled(num_controls, control_values).on(*controls, target)\<close>, with the control
  values and the control qubits; and a Gray-code gate under
  \<^verbatim>\<open>.controlled(num_controls=1, control_values=[1]).on(ancilla, *data_qubits)\<close>.
\<close>

datatype operation =
    Ry real qubit
  | PauliX qubit
  | ControlledRy real "nat list" "qubit list" qubit
  | ControlledX "nat list" "qubit list" qubit
  | ControlledGrayCode gray_code_gate "nat list" qubit "qubit list"

text \<open>
  \<^verbatim>\<open>gate.controlled(num_controls, control_values).on(*controls, target)\<close>: cirq refuses
  control values or control qubits whose number is not \<^verbatim>\<open>num_controls\<close>.
\<close>

definition controlled_on ::
  "(nat list \<Rightarrow> qubit list \<Rightarrow> qubit \<Rightarrow> operation) \<Rightarrow> nat \<Rightarrow> nat list \<Rightarrow> qubit list \<Rightarrow> qubit
     \<Rightarrow> py_error + operation" where
  "controlled_on gate num_controls control_values controls target =
     (if length control_values \<noteq> num_controls \<or> length controls \<noteq> num_controls
      then Inl ValueError
      else Inr (gate control_values controls target))"

section \<open>grover\_rudolph\_circuit.py\<close>


text \<open>
  \<^verbatim>\<open>control_tag(c)\<close>. For \<open>c = 0\<close> the logarithm is \<open>-inf\<close> and \<^verbatim>\<open>math.ceil\<close> raises
  OverflowError; for \<open>c = 1\<close> the group number is \<open>-1\<close> and the format specification is
  refused with ValueError. From \<open>c = 2\<close> on the group number is a natural number.
\<close>

definition control_tag :: "nat \<Rightarrow> py_error + nat \<times> int \<times> string \<times> nat list" where
  "control_tag c =
     (if c = 0 then Inl OverflowError
      else if c = 1 then Inl ValueError
      else
        let steps = int c - 1;
            l = ceil_log2 c - 1;
            R = steps - 2 ^ l;
            bin_sig = format_0b l R
        in case map_raising int_of_char bin_sig of
             Inl e \<Rightarrow> Inl e
           | Inr ctrl_sig \<Rightarrow> Inr (l, R, bin_sig, ctrl_sig))"

text \<open>
  \<^verbatim>\<open>control_tag\<close> above takes the logarithm as exact. The source computes
  \<^verbatim>\<open>math.ceil(np.log2(c))\<close> on doubles: the integer is first converted to the nearest
  double, a number with a significand of 53 bits, ties going to the even significand.
  \<open>double_shift c\<close> is the number of low bits the conversion drops, and \<open>double_of_nat c\<close>
  is the value of the double.
\<close>

fun double_shift :: "nat \<Rightarrow> nat" where
  "double_shift c = (if c < 2 ^ 53 then 0 else Suc (double_shift (c div 2)))"

declare double_shift.simps [simp del]

definition double_of_nat :: "nat \<Rightarrow> nat" where
  "double_of_nat c =
     (let e = double_shift c; q = c div 2 ^ e; r = c mod 2 ^ e
      in if 2 * r < 2 ^ e \<or> (2 * r = 2 ^ e \<and> even q) then q * 2 ^ e else (q + 1) * 2 ^ e)"

text \<open>
  The logarithm of the library is a parameter \<open>lg\<close>: \<open>lg x\<close> is the double it returns on
  the double \<open>x\<close>. What is known of it is that it is exact on the powers of two, and
  within one unit in the last place of the true logarithm, which is at most \<open>2\<^sup>-\<^sup>4\<^sup>7\<close> for
  the arguments below \<open>2\<^sup>6\<^sup>4\<close>.
\<close>

definition log2_accurate :: "(nat \<Rightarrow> real) \<Rightarrow> bool" where
  "log2_accurate lg \<longleftrightarrow>
     (\<forall>k. lg (2 ^ k) = real k) \<and>
     (\<forall>x. 1 \<le> x \<and> x < 2 ^ 64 \<longrightarrow> \<bar>lg x - log 2 (real x)\<bar> \<le> 1 / 2 ^ 47)"

text \<open>
  \<^verbatim>\<open>control_tag(c)\<close> with the logarithm in double precision. numpy has no conversion for
  an integer of more than 64 bits and raises TypeError on it; a negative group number
  makes \<^verbatim>\<open>2**l\<close> and \<open>R\<close> floats, which the binary format refuses with ValueError.
\<close>

definition control_tag_double ::
  "(nat \<Rightarrow> real) \<Rightarrow> nat \<Rightarrow> py_error + nat \<times> int \<times> string \<times> nat list" where
  "control_tag_double lg c =
     (if c = 0 then Inl OverflowError
      else if 2 ^ 64 \<le> c then Inl TypeError
      else
        let steps = int c - 1;
            l = \<lceil>lg (double_of_nat c)\<rceil> - 1
        in if l < 0 then Inl ValueError
           else
             let R = steps - 2 ^ nat l;
                 bin_sig = format_0b (nat l) R
             in case map_raising int_of_char bin_sig of
                  Inl e \<Rightarrow> Inl e
                | Inr ctrl_sig \<Rightarrow> Inr (nat l, R, bin_sig, ctrl_sig))"




section \<open>permutation\_circuits.py\<close>

text \<open>The constructor of \<^verbatim>\<open>gray_code_gate\<close>; the number of qubits is a count.\<close>

definition gray_code_gate_init :: "nat \<Rightarrow> string \<Rightarrow> string \<Rightarrow> py_error + gray_code_gate" where
  "gray_code_gate_init num_qubits s1 s2 =
     (if length s1 \<noteq> num_qubits \<or> length s2 \<noteq> num_qubits then Inl ValueError
      else Inr \<lparr>gcg_num_qubits = num_qubits, binary_str_1 = s1, binary_str_2 = s2\<rparr>)"

text \<open>
  \<^verbatim>\<open>gray_code_gate._decompose_\<close>: the vector of \<^verbatim>\<open>int(b1) ^ int(b2)\<close> over the zipped
  strings, then the loop \<^verbatim>\<open>for i, bit in enumerate(gray_code_vector)\<close> that yields
  \<^verbatim>\<open>cirq.X(qubits[i])\<close> where \<^verbatim>\<open>bit == 1\<close>.
\<close>

definition xor_chars :: "char \<times> char \<Rightarrow> py_error + nat" where
  "xor_chars bs =
     (case int_of_char (fst bs) of
        Inl e \<Rightarrow> Inl e
      | Inr v1 \<Rightarrow> (case int_of_char (snd bs) of Inl e \<Rightarrow> Inl e | Inr v2 \<Rightarrow> Inr (v1 XOR v2)))"

fun gray_flips :: "qubit list \<Rightarrow> nat \<Rightarrow> nat list \<Rightarrow> py_error + operation list" where
  "gray_flips qubits i [] = Inr []"
| "gray_flips qubits i (b # rest) =
     (if b = 1 then
        (case py_nth qubits i of
           Inl e \<Rightarrow> Inl e
         | Inr q \<Rightarrow>
             (case gray_flips qubits (i + 1) rest of
                Inl e \<Rightarrow> Inl e
              | Inr ops \<Rightarrow> Inr (PauliX q # ops)))
      else gray_flips qubits (i + 1) rest)"

definition gray_code_gate_decompose :: "gray_code_gate \<Rightarrow> qubit list \<Rightarrow> py_error + operation list" where
  "gray_code_gate_decompose self qubits =
     (case map_raising xor_chars (zip (binary_str_1 self) (binary_str_2 self)) of
        Inl e \<Rightarrow> Inl e
      | Inr gray_code_vector \<Rightarrow> gray_flips qubits 0 gray_code_vector)"

text \<open>\<^verbatim>\<open>permutation_cycle_gate(num_qubits, cycle)\<close>; the number of qubits is a count.\<close>

record permutation_cycle_gate =
  pcg_n :: nat
  pcg_cycle :: "int list"

definition permutation_cycle_gate_init :: "nat \<Rightarrow> int list \<Rightarrow> py_error + permutation_cycle_gate" where
  "permutation_cycle_gate_init num_qubits cycle =
     (if list_all (\<lambda>x. 0 \<le> x \<and> x < 2 ^ num_qubits) cycle
      then Inr \<lparr>pcg_n = num_qubits, pcg_cycle = cycle\<rparr>
      else Inl ValueError)"

text \<open>The two operations yielded for one \<open>k\<close> in \<^verbatim>\<open>permutation_cycle_gate._decompose_\<close>.\<close>

definition cycle_step ::
  "permutation_cycle_gate \<Rightarrow> qubit list \<Rightarrow> qubit \<Rightarrow> nat \<Rightarrow> py_error + operation list" where
  "cycle_step self data_qubits ancilla k =
     (let l = length (pcg_cycle self);
          x_k = pcg_cycle self ! k;
          x_kp1 = pcg_cycle self ! ((k + 1) mod l);
          bin_k = zfill (pcg_n self) (bin_tail x_k);
          bin_kp1 = zfill (pcg_n self) (bin_tail x_kp1)
      in case map_raising int_of_char bin_k of
           Inl e \<Rightarrow> Inl e
         | Inr ctrl_vals \<Rightarrow>
             (case controlled_on ControlledX (pcg_n self) ctrl_vals data_qubits ancilla of
                Inl e \<Rightarrow> Inl e
              | Inr mcx_gate \<Rightarrow>
                  (case gray_code_gate_init (pcg_n self) bin_k bin_kp1 of
                     Inl e \<Rightarrow> Inl e
                   | Inr gc_gate \<Rightarrow>
                       Inr [mcx_gate, ControlledGrayCode gc_gate [1] ancilla data_qubits])))"

text \<open>The loop \<^verbatim>\<open>for k in range(l)\<close>, over the values of \<open>k\<close> still to come.\<close>

fun cycle_steps ::
  "permutation_cycle_gate \<Rightarrow> qubit list \<Rightarrow> qubit \<Rightarrow> nat list \<Rightarrow> py_error + operation list" where
  "cycle_steps self data_qubits ancilla [] = Inr []"
| "cycle_steps self data_qubits ancilla (k # rest) =
     (case cycle_step self data_qubits ancilla k of
        Inl e \<Rightarrow> Inl e
      | Inr ops \<Rightarrow>
          (case cycle_steps self data_qubits ancilla rest of
             Inl e \<Rightarrow> Inl e
           | Inr later \<Rightarrow> Inr (ops @ later)))"

text \<open>
  \<^verbatim>\<open>permutation_cycle_gate._decompose_(qubits)\<close>, with the operations it yields collected
  in a list; an exception raised while it runs is the result.
\<close>

definition permutation_cycle_gate_decompose ::
  "permutation_cycle_gate \<Rightarrow> qubit list \<Rightarrow> py_error + operation list" where
  "permutation_cycle_gate_decompose self qubits =
     (let data_qubits = take (pcg_n self) qubits
      in case py_nth qubits (pcg_n self) of
           Inl e \<Rightarrow> Inl e
         | Inr ancilla \<Rightarrow>
             (case cycle_steps self data_qubits ancilla [0..<length (pcg_cycle self)] of
                Inl e \<Rightarrow> Inl e
              | Inr ops \<Rightarrow>
                  (case py_nth (pcg_cycle self) 0 of
                     Inl e \<Rightarrow> Inl e
                   | Inr x_0 \<Rightarrow>
                       (case map_raising int_of_char (zfill (pcg_n self) (bin_tail x_0)) of
                          Inl e \<Rightarrow> Inl e
                        | Inr ctrl_vals_0 \<Rightarrow>
                            (case controlled_on ControlledX (pcg_n self) ctrl_vals_0
                                    data_qubits ancilla of
                               Inl e \<Rightarrow> Inl e
                             | Inr mcx_final \<Rightarrow> Inr (ops @ [mcx_final]))))))"

section \<open>main.py\<close>

text \<open>
  The test \<^verbatim>\<open>max(target_subset) > 2**num_qubits\<close>: for a negative exponent the power is a
  float in \<open>[0, 1)\<close>, which an integer exceeds exactly when it is positive.
\<close>

definition exceeds_power_of_2 :: "int \<Rightarrow> int \<Rightarrow> bool" where
  "exceeds_power_of_2 m num_qubits =
     (if 0 \<le> num_qubits then 2 ^ nat num_qubits < m else 0 < m)"

text \<open>
  The block "Error Checking" of \<^verbatim>\<open>main\<close>: \<open>Inl\<close> for the exception it raises, \<open>Inr ()\<close>
  when \<^verbatim>\<open>main\<close> goes on to build the circuit. \<^verbatim>\<open>max\<close> of an empty list raises ValueError;
  the elements are integers by their type, so the \<^verbatim>\<open>isinstance\<close> test passes.
\<close>

definition main_error_checking :: "int \<Rightarrow> int \<Rightarrow> int list \<Rightarrow> py_error + unit" where
  "main_error_checking num_qubits cardinality target =
     (if int (length target) \<noteq> cardinality then Inl ValueError
      else if target = [] then Inl ValueError
      else if exceeds_power_of_2 (Max (set target)) num_qubits then Inl ValueError
      else Inr ())"

section \<open>The specification's own notions\<close>

text \<open>The \<open>w\<close>-bit string of the number \<open>i\<close>, most significant bit first.\<close>

fun bits_msb :: "nat \<Rightarrow> nat \<Rightarrow> string" where
  "bits_msb 0 i = []"
| "bits_msb (Suc w) i = bits_msb w (i div 2) @ [bit_char (i mod 2)]"

text \<open>All \<open>w\<close>-bit strings in increasing numeric order.\<close>

definition level_strings :: "nat \<Rightarrow> string list" where
  "level_strings w = map (bits_msb w) [0..<2 ^ w]"

text \<open>
  The binary strings enumerated breadth-first by increasing length, the lengths
  \<open>1, \<dots>, m\<close>.
\<close>

definition breadth_first_strings :: "nat \<Rightarrow> string list" where
  "breadth_first_strings m = concat (map level_strings [1..<Suc m])"

definition bit_string :: "string \<Rightarrow> bool" where
  "bit_string s \<longleftrightarrow> list_all (\<lambda>ch. ch = CHR ''0'' \<or> ch = CHR ''1'') s"

definition bit_value :: "char \<Rightarrow> nat" where
  "bit_value ch = (if ch = CHR ''1'' then 1 else 0)"


text \<open>
  The states of the cycle-following loop from which it cannot exit: every value of
  \<^verbatim>\<open>target_subset\<close> is an in-range index, and so is \<open>j\<close>.
\<close>

definition in_range_inv :: "int list \<Rightarrow> bool list \<Rightarrow> int \<Rightarrow> bool" where
  "in_range_inv target used j \<longleftrightarrow>
     (\<forall>x\<in>set target. 0 \<le> x \<and> x < int (length target)) \<and>
     length used = length target \<and> 0 \<le> j \<and> j < int (length target)"

section \<open>Cycle decomposition: the loop that follows a cycle\<close>

lemma follow_cycle_no_exit:
  assumes "follow_cycle target used j cycle = Some r"
  shows "\<not> in_range_inv target used j"
proof (rule follow_cycle.raw_induct
    [where P = "\<lambda>t u k c r. \<not> in_range_inv t u k", OF _ assms], goal_cases)
  case (1 f t u k c r)
  show ?case
  proof
    assume inv: "in_range_inv t u k"
    then have pu: "py_index u k = Some (nat k)" and pt: "py_index t k = Some (nat k)"
      by (simp_all add: py_index_def in_range_inv_def)
    from inv have nth: "0 \<le> t ! nat k \<and> t ! nat k < int (length t)"
      unfolding in_range_inv_def by (metis nat_less_iff nth_mem)
    from 1(2) inv pu pt
    have "f t (u[nat k := True]) (t ! nat k) (c @ [t ! nat k]) = Some r"
      by (simp add: in_range_inv_def)
    from 1(1)[OF this] inv nth show False by (simp add: in_range_inv_def)
  qed
qed

lemma follow_cycle_diverges:
  "in_range_inv target used j \<Longrightarrow> follow_cycle target used j cycle = None"
  using follow_cycle_no_exit by (cases "follow_cycle target used j cycle") auto

lemma scan_indices_diverges:
  assumes "\<forall>x\<in>set target. 0 \<le> x \<and> x < int (length target)"
    and "length used = length target"
    and "\<forall>i\<in>set todo. i < length target"
    and "\<exists>i\<in>set todo. \<not> used ! i \<and> target ! i \<noteq> int i"
  shows "scan_indices target todo used cycles = None"
  using assms(3,4)
proof (induction todo)
  case Nil
  then show ?case by simp
next
  case (Cons i rest)
  show ?case
  proof (cases "used ! i \<or> target ! i = int i")
    case True
    with Cons show ?thesis by auto
  next
    case False
    from Cons.prems(1) have "i < length target" by simp
    with assms(1) have "0 \<le> target ! i \<and> target ! i < int (length target)"
      by (metis nth_mem)
    with assms(1,2) have "in_range_inv target used (target ! i)"
      by (simp add: in_range_inv_def)
    from follow_cycle_diverges[OF this] False show ?thesis by simp
  qed
qed

text \<open>
  On every target whose values are all indices of \<open>[0, d)\<close>, a permutation of \<open>[0, d)\<close>
  included, the function returns only when there is nothing to do: as soon as one index
  is not a fixed point the loop that follows its cycle never exits.
\<close>

lemma permutation_cycles_in_range_diverges:
  assumes "\<forall>x\<in>set (target_subset self). 0 \<le> x \<and> x < int (length (target_subset self))"
    and "\<exists>i<length (target_subset self). target_subset self ! i \<noteq> int i"
  shows "permutation_cycles self = None"
  unfolding permutation_cycles_def Let_def
  using assms by (intro scan_indices_diverges) auto

text \<open>
  Where some value is not an index the loops do exit, but a chain that runs into an
  earlier one repeats its indices: the start of a chain is never marked as used.
\<close>

lemma permutation_cycles_sparse_overlap:
  "permutation_cycles \<lparr>gr_subset = [0, 1, 2, 3, 4, 5], target_subset = [1, 2, 4, 8, 16, 0]\<rparr>
     = Some (Inr [[0, 1, 2, 4, 16], [3, 8], [5, 0, 1, 2, 4, 16]])"
  by (simp add: permutation_cycles_def follow_cycle.simps py_index_def upt_rec)

text \<open>
  Claim C1 (the decomposition is a set partition of \<open>[0, d)\<close>), at the transposition
  \<open>target_subset = [1, 0]\<close> of \<open>[0, 2)\<close>: indices 0 and 1 should form the one cycle of the
  decomposition, but no decomposition is returned at all, since the loop that follows
  the cycle from index 0 never exits.
\<close>

theorem permutation_cycles_transposition_no_result:
  "permutation_cycles \<lparr>gr_subset = [0, 1], target_subset = [1, 0]\<rparr> = None"
proof (rule permutation_cycles_in_range_diverges, goal_cases)
  case 1
  show ?case by simp
next
  case 2
  show ?case by (rule exI[of _ 0]) simp
qed

text \<open>
  Claim C2 (the cycle-following loop stops on every input, in a number of steps bounded
  by a function of \<open>d\<close>), at the scenario \<open>gr_subset = [0, 1, 2, 3]\<close>,
  \<open>target_subset = [1, 3, 0, 2]\<close>: the followed value is an in-range index for ever, and
  the call does not return.
\<close>

theorem permutation_cycles_scenario_2_diverges:
  "permutation_cycles \<lparr>gr_subset = [0, 1, 2, 3], target_subset = [1, 3, 0, 2]\<rparr> = None"
proof (rule permutation_cycles_in_range_diverges, goal_cases)
  case 1
  show ?case by simp
next
  case 2
  show ?case by (rule exI[of _ 0]) simp
qed

section \<open>The logarithm and the binary renderings\<close>

lemma ceil_log2_small: "n < 2 \<Longrightarrow> ceil_log2 n = 0"
  by (simp add: ceil_log2.simps)

lemma ceil_log2_bounds:
  "1 \<le> n \<Longrightarrow> n \<le> 2 ^ ceil_log2 n \<and> (2 \<le> n \<longrightarrow> 1 \<le> ceil_log2 n \<and> 2 ^ (ceil_log2 n - 1) < n)"
proof (induction n rule: ceil_log2.induct)
  case (1 n)
  show ?case
  proof (cases "n < 2")
    case True
    with 1 show ?thesis by (simp add: ceil_log2.simps[of n])
  next
    case False
    define m where "m = (n - 1) div 2 + 1"
    have m1: "1 \<le> m" by (simp add: m_def)
    from False have cl: "ceil_log2 n = ceil_log2 m + 1"
      by (simp add: ceil_log2.simps[of n] m_def)
    from 1(1)[OF False] m1 have IH: "m \<le> 2 ^ ceil_log2 m"
      "2 \<le> m \<longrightarrow> 1 \<le> ceil_log2 m \<and> 2 ^ (ceil_log2 m - 1) < m" by (simp_all add: m_def)
    have "n \<le> 2 * m" by (simp add: m_def)
    with IH(1) have up: "n \<le> 2 ^ ceil_log2 n" by (simp add: cl)
    have low: "2 ^ (ceil_log2 n - 1) < n"
    proof (cases "2 \<le> m")
      case True
      with IH(2) have a: "1 \<le> ceil_log2 m" and b: "2 ^ (ceil_log2 m - 1) < m" by simp_all
      from b have "2 ^ (ceil_log2 m - 1) \<le> (n - 1) div 2" by (simp add: m_def)
      then have "2 * 2 ^ (ceil_log2 m - 1) \<le> 2 * ((n - 1) div 2)" by simp
      also have "\<dots> \<le> n - 1" by simp
      finally have "2 * 2 ^ (ceil_log2 m - 1) < n" using False by simp
      moreover from a have "(2::nat) * 2 ^ (ceil_log2 m - 1) = 2 ^ ceil_log2 m"
        by (cases "ceil_log2 m") simp_all
      ultimately show ?thesis by (simp add: cl)
    next
      case F2: False
      with m1 have "m = 1" by simp
      then have "ceil_log2 m = 0" by (simp add: ceil_log2_small)
      with False show ?thesis by (simp add: cl)
    qed
    from up low cl show ?thesis by simp
  qed
qed

lemma ceil_log2_eq: "1 \<le> n \<Longrightarrow> int (ceil_log2 n) = \<lceil>log 2 (real n)\<rceil>"
proof (cases "2 \<le> n")
  case True
  with ceil_log2_bounds[of n] have b: "n \<le> 2 ^ ceil_log2 n" "1 \<le> ceil_log2 n" "2 ^ (ceil_log2 n - 1) < n"
    by simp_all
  from b(2) have e: "ceil_log2 n - 1 + 1 = ceil_log2 n" by simp
  from ceiling_log_nat_eq_if[of 2 "ceil_log2 n - 1" n] b e
  show ?thesis by simp
next
  case False
  assume "1 \<le> n"
  with False have "n = 1" by simp
  then show ?thesis by (simp add: ceil_log2_small)
qed

lemma ceil_log2_gt: "2 ^ l < n \<Longrightarrow> l < ceil_log2 n"
proof -
  assume a: "2 ^ l < n"
  then have "1 \<le> n" by (cases n) simp_all
  with ceil_log2_bounds[of n] have "n \<le> 2 ^ ceil_log2 n" by simp
  with a have "(2::nat) ^ l < 2 ^ ceil_log2 n" by (rule less_le_trans)
  then show ?thesis by simp
qed


lemma bit_char_cases: "bit_char b = CHR ''0'' \<or> bit_char b = CHR ''1''"
  by (simp add: bit_char_def)

lemma bit_char_mod2: "i < 2 \<Longrightarrow> bit_char (i mod 2) = bit_char i"
  by simp

lemma bin_digits_not_Nil: "bin_digits i \<noteq> []"
  by (subst bin_digits.simps) simp

lemma hd_bin_digits: "hd (bin_digits i) = CHR ''0'' \<or> hd (bin_digits i) = CHR ''1''"
proof (induction i rule: bin_digits.induct)
  case (1 i)
  show ?case
  proof (cases "i < 2")
    case True
    then show ?thesis using bit_char_cases[of i] by (subst (1 2) bin_digits.simps) simp
  next
    case False
    with 1 bin_digits_not_Nil[of "i div 2"] show ?thesis
      by (subst (1 2) bin_digits.simps) simp
  qed
qed

lemma zfill_bin_digits: "zfill w (bin_digits i) = format_0b w (int i)"
proof (cases "bin_digits i")
  case Nil
  with bin_digits_not_Nil show ?thesis by simp
next
  case (Cons c rest)
  with hd_bin_digits[of i] have "c = CHR ''0'' \<or> c = CHR ''1''" by simp
  with Cons show ?thesis by (auto simp: zfill_def format_0b_def)
qed

lemma bits_msb_zero: "bits_msb w 0 = replicate w (CHR ''0'')"
  by (induction w) (simp_all add: bit_char_def replicate_append_same)

lemma length_bits_msb [simp]: "length (bits_msb w i) = w"
  by (induction w arbitrary: i) simp_all

lemma bit_string_bits_msb: "bit_string (bits_msb w i)"
  by (induction w arbitrary: i) (simp_all add: bit_string_def bit_char_def)

lemma format_0b_bits_msb:
  "0 < w \<Longrightarrow> i < 2 ^ w \<Longrightarrow> format_0b w (int i) = bits_msb w i"
proof (induction w arbitrary: i)
  case 0
  then show ?case by simp
next
  case (Suc w)
  show ?case
  proof (cases "i < 2")
    case True
    then have "bin_digits i = [bit_char i]" by (subst bin_digits.simps) simp
    with True show ?thesis by (simp add: format_0b_def bits_msb_zero)
  next
    case False
    then have bd: "bin_digits i = bin_digits (i div 2) @ [bit_char (i mod 2)]"
      by (subst bin_digits.simps) simp
    from False Suc.prems have w: "0 < w" by (cases w) simp_all
    from Suc.prems have "i div 2 < 2 ^ w" by simp
    from Suc.IH[OF w this] show ?thesis
      by (simp add: format_0b_def bd)
  qed
qed


lemma append_level_eq:
  "length acc < n \<Longrightarrow>
   append_level n w todo acc =
     (if n \<le> length acc + length todo
      then (acc @ take (n - length acc) (map (\<lambda>i. zfill w (bin_digits i)) todo), True)
      else (acc @ map (\<lambda>i. zfill w (bin_digits i)) todo, False))"
proof (induction todo arbitrary: acc)
  case Nil
  then show ?case by simp
next
  case (Cons i rest)
  show ?case
  proof (cases "Suc (length acc) = n")
    case True
    then have "n - length acc = Suc 0" by simp
    with True show ?thesis by (simp add: Let_def)
  next
    case False
    with Cons.prems have lt: "length (acc @ [zfill w (bin_digits i)]) < n" by simp
    have t: "n - length acc = Suc (n - Suc (length acc))" using Cons.prems by simp
    from False Cons.IH[OF lt] show ?thesis
      by (simp add: Let_def t)
  qed
qed

lemma level_eq:
  "0 < w \<Longrightarrow> map (\<lambda>i. zfill w (bin_digits i)) [0..<2 ^ w] = level_strings w"
  unfolding level_strings_def
  by (rule map_cong) (simp_all add: zfill_bin_digits format_0b_bits_msb)

lemma length_level_strings [simp]: "length (level_strings w) = 2 ^ w"
  by (simp add: level_strings_def)

lemma prefix_loop_eq:
  "0 < w \<Longrightarrow> n \<le> length acc + length (concat (map level_strings [w..<v])) \<Longrightarrow>
   prefix_loop n acc w = acc @ take (n - length acc) (concat (map level_strings [w..<v]))"
proof (induction "v - w" arbitrary: acc w)
  case 0
  then show ?case by (simp add: prefix_loop.simps[of n acc w])
next
  case (Suc m)
  from Suc(2) have up: "[w..<v] = w # [Suc w..<v]" by (simp add: upt_conv_Cons)
  from Suc(2) have m: "m = v - Suc w" by simp
  show ?case
  proof (cases "length acc < n")
    case False
    then show ?thesis by (simp add: prefix_loop.simps[of n acc w])
  next
    case True
    note lt = this
    show ?thesis
    proof (cases "n \<le> length acc + 2 ^ w")
      case True
      with lt Suc.prems(1) show ?thesis
        by (simp add: prefix_loop.simps[of n acc w] append_level_eq level_eq up)
    next
      case False
      from Suc.prems(2) have "n \<le> length (acc @ level_strings w)
          + length (concat (map level_strings [Suc w..<v]))"
        by (simp add: up)
      from Suc(1)[OF m _ this] have
        "prefix_loop n (acc @ level_strings w) (Suc w) =
           (acc @ level_strings w) @ take (n - length (acc @ level_strings w))
              (concat (map level_strings [Suc w..<v]))" by simp
      with lt False Suc.prems(1) show ?thesis
        by (simp add: prefix_loop.simps[of n acc w] append_level_eq level_eq up)
    qed
  qed
qed

lemma length_levels_ge: "v - w \<le> length (concat (map level_strings [w..<v]))"
proof (induction "v - w" arbitrary: w)
  case 0
  then show ?case by simp
next
  case (Suc m)
  from Suc(2) have up: "[w..<v] = w # [Suc w..<v]" by (simp add: upt_conv_Cons)
  from Suc(2) have m: "m = v - Suc w" by simp
  have a: "Suc 0 \<le> (2::nat) ^ w" by simp
  from Suc(2) have e: "v - w = Suc (v - Suc w)" by simp
  have "length (concat (map level_strings [w..<v]))
      = 2 ^ w + length (concat (map level_strings [Suc w..<v]))" by (simp add: up)
  with a e Suc(1)[OF m] show ?case by linarith
qed

lemma generate_prefix_binary_sequence_bfs:
  "generate_prefix_binary_sequence c = take (c - 2) (breadth_first_strings c)"
proof (cases "c \<le> 2")
  case True
  then show ?thesis by (simp add: generate_prefix_binary_sequence_def)
next
  case False
  have "c - 2 \<le> length ([] :: string list) + length (concat (map level_strings [1..<Suc c]))"
    using length_levels_ge[of "Suc c" 1] by simp
  from prefix_loop_eq[OF _ this] False show ?thesis
    by (simp add: generate_prefix_binary_sequence_def breadth_first_strings_def)
qed

lemma in_take_levels:
  "p \<in> set (take k (concat (map level_strings [w..<v]))) \<Longrightarrow>
   \<exists>L\<ge>w. p \<in> set (level_strings L) \<and> 2 ^ L < k + 2 ^ w"
proof (induction "v - w" arbitrary: w k)
  case 0
  then show ?case by simp
next
  case (Suc m)
  from Suc(2) have up: "[w..<v] = w # [Suc w..<v]" by (simp add: upt_conv_Cons)
  from Suc(2) have m: "m = v - Suc w" by simp
  from Suc.prems have "p \<in> set (take k (level_strings w)) \<or>
      p \<in> set (take (k - 2 ^ w) (concat (map level_strings [Suc w..<v])))"
    by (simp add: up)
  then show ?case
  proof
    assume a: "p \<in> set (take k (level_strings w))"
    then have "0 < k" by (cases k) simp_all
    moreover from a have "p \<in> set (level_strings w)" by (rule in_set_takeD)
    ultimately show ?thesis by (intro exI[of _ w]) simp
  next
    assume a: "p \<in> set (take (k - 2 ^ w) (concat (map level_strings [Suc w..<v])))"
    then have k: "0 < k - 2 ^ w" by (cases "k - 2 ^ w") simp_all
    from Suc(1)[OF m a] obtain L where L: "Suc w \<le> L" "p \<in> set (level_strings L)"
      "2 ^ L < k - 2 ^ w + 2 ^ Suc w" by blast
    from k L(3) have "2 ^ L < k + 2 ^ w" by simp
    with L(1,2) show ?thesis by (intro exI[of _ L]) simp
  qed
qed

lemma generated_prefix_shape:
  assumes "p \<in> set (generate_prefix_binary_sequence c)"
  shows "\<exists>i. p = bits_msb (length p) i \<and> 1 \<le> length p \<and> 2 ^ length p < c"
proof -
  from assms have c: "2 < c"
    by (cases "c \<le> 2") (simp_all add: generate_prefix_binary_sequence_def)
  from assms have "p \<in> set (take (c - 2) (concat (map level_strings [1..<Suc c])))"
    by (simp add: generate_prefix_binary_sequence_bfs breadth_first_strings_def)
  from in_take_levels[OF this] obtain L where L: "1 \<le> L" "p \<in> set (level_strings L)"
    "2 ^ L < c - 2 + 2 ^ 1" by blast
  from L(2) obtain i where "p = bits_msb L i" by (auto simp: level_strings_def)
  moreover from L(3) c have "2 ^ L < c" by simp
  ultimately show ?thesis using L(1) by auto
qed

lemma take_rev_bits_msb:
  "l \<le> w \<Longrightarrow> take l (rev (bits_msb w j)) = rev (bits_msb l j)"
proof (induction w arbitrary: l j)
  case 0
  then show ?case by simp
next
  case (Suc w)
  show ?case
  proof (cases l)
    case 0
    then show ?thesis by simp
  next
    case (Suc l')
    with Suc.prems have "l' \<le> w" by simp
    from Suc.IH[OF this, of "j div 2"] Suc show ?thesis by simp
  qed
qed

lemma bit_string_has_index:
  "bit_string p \<Longrightarrow> \<exists>j<2 ^ length p. rev (bits_msb (length p) j) = p"
proof (induction p)
  case Nil
  then show ?case by simp
next
  case (Cons b p)
  then have b: "b = CHR ''0'' \<or> b = CHR ''1''" and "bit_string p"
    by (simp_all add: bit_string_def)
  with Cons.IH obtain j where j: "j < 2 ^ length p" "rev (bits_msb (length p) j) = p"
    by blast
  define k where "k = (if b = CHR ''0'' then 0 else 1) + 2 * j"
  have "k mod 2 = (if b = CHR ''0'' then 0 else 1)" "k div 2 = j"
    by (simp_all add: k_def)
  with b j(2) have "rev (bits_msb (length (b # p)) k) = b # p"
    by (auto simp: bit_char_def)
  moreover from j(1) have "k < 2 ^ length (b # p)" by (simp add: k_def)
  ultimately show ?case by blast
qed

lemma bit_string_rev: "bit_string (rev s) = bit_string s"
  by (simp add: bit_string_def)

lemma bit_string_nth: "bit_string s \<Longrightarrow> i < length s \<Longrightarrow> s ! i = CHR ''0'' \<or> s ! i = CHR ''1''"
  by (simp add: bit_string_def list_all_length)

lemma partition_counter_ok:
  assumes c: "2 < c" and p: "bit_string p" and lt: "2 ^ length p < c"
  shows "\<exists>N0 N1. partition_counter c p = Inr (N0, N1) \<and> 1 \<le> N0 + N1"
proof -
  define n where "n = ceil_log2 c"
  define l where "l = length p"
  define rbv where "rbv = map rev (map (\<lambda>i. format_0b n (int i)) [0..<c])"
  define cond where "cond = map (\<lambda>i. (i, drop l i)) (filter (\<lambda>i. take l i = p) rbv)"
  from lt have ln: "l < n" unfolding l_def n_def by (rule ceil_log2_gt)
  from c ceil_log2_bounds[of c] have cn: "c \<le> 2 ^ n" by (simp add: n_def)
  from ln have n0: "0 < n" by simp
  have rbv_eq: "rbv = map (\<lambda>i. rev (bits_msb n i)) [0..<c]"
    unfolding rbv_def map_map
  proof (rule map_cong[OF refl])
    fix i assume "i \<in> set [0..<c]"
    with cn have "i < 2 ^ n" by simp
    with n0 show "(rev \<circ> (\<lambda>i. format_0b n (int i))) i = rev (bits_msb n i)"
      by (simp add: format_0b_bits_msb)
  qed
  have shape: "snd x \<noteq> [] \<and> (hd (snd x) = CHR ''0'' \<or> hd (snd x) = CHR ''1'')"
    if "x \<in> set cond" for x
  proof -
    from that obtain i where x: "x = (rev (bits_msb n i), drop l (rev (bits_msb n i)))"
      by (auto simp: cond_def rbv_eq)
    let ?s = "rev (bits_msb n i)"
    have len: "length ?s = n" by simp
    have bs: "bit_string ?s" by (simp add: bit_string_rev bit_string_bits_msb)
    from ln len have "drop l ?s \<noteq> []" by simp
    moreover from ln len have "hd (drop l ?s) = ?s ! l" by (simp add: hd_drop_conv_nth)
    moreover from bit_string_nth[OF bs, of l] ln len
    have "?s ! l = CHR ''0'' \<or> ?s ! l = CHR ''1''" by simp
    ultimately show ?thesis by (simp add: x)
  qed
  from bit_string_has_index[OF p] obtain j where j: "j < 2 ^ l" "rev (bits_msb l j) = p"
    by (auto simp: l_def)
  from j(1) lt have jc: "j < c" by (simp add: l_def)
  then have "rev (bits_msb n j) \<in> set rbv" by (auto simp: rbv_eq)
  moreover from ln j(2) have "take l (rev (bits_msb n j)) = p"
    by (simp add: take_rev_bits_msb)
  ultimately have "\<exists>x\<in>set rbv. take l x = p" by blast
  then have "filter (\<lambda>i. take l i = p) rbv \<noteq> []" by (simp add: filter_empty_conv)
  then have nonempty: "1 \<le> length cond" by (cases "filter (\<lambda>i. take l i = p) rbv") (simp_all add: cond_def)
  have "filter (\<lambda>i. hd (snd i) = CHR ''1'') cond = filter (\<lambda>i. \<not> hd (snd i) = CHR ''0'') cond"
    by (rule filter_cong[OF refl]) (use shape in auto)
  then have total: "length (filter (\<lambda>i. hd (snd i) = CHR ''0'') cond)
      + length (filter (\<lambda>i. hd (snd i) = CHR ''1'') cond) = length cond"
    by (simp add: sum_length_filter_compl)
  from shape have "\<not> list_ex (\<lambda>i. snd i = []) cond" by (auto simp: list_ex_iff)
  with c have "partition_counter c p =
      Inr (length (filter (\<lambda>i. hd (snd i) = CHR ''0'') cond),
           length (filter (\<lambda>i. hd (snd i) = CHR ''1'') cond))"
    unfolding partition_counter_def Let_def cond_def rbv_def l_def n_def by simp
  with total nonempty show ?thesis by simp
qed

lemma angles_loop_ok:
  assumes "\<forall>p\<in>set ps. \<exists>N0 N1. partition_counter c p = Inr (N0, N1) \<and> 1 \<le> N0 + N1"
  shows "\<exists>angles. angles_loop c ps acc = Inr angles \<and> length angles = length acc + length ps"
  using assms
proof (induction ps arbitrary: acc)
  case Nil
  then show ?case by simp
next
  case (Cons p ps)
  then obtain N0 N1 where pc: "partition_counter c p = Inr (N0, N1)" "1 \<le> N0 + N1"
    by auto
  define a where "a = 2 * arccos (sqrt (real N0 / real (N0 + N1)))"
  from pc(2) have "N0 + N1 \<noteq> 0" by linarith
  then have pa: "partition_angle N0 N1 = Inr a"
    unfolding partition_angle_def a_def by (simp only: if_False)
  from Cons.prems have "\<forall>p\<in>set ps. \<exists>N0 N1. partition_counter c p = Inr (N0, N1) \<and> 1 \<le> N0 + N1"
    by simp
  from Cons.IH[OF this, of "acc @ [a]"] pc pa show ?case by simp
qed

lemma prefixes_counted:
  assumes "2 < c" and "p \<in> set ([] # generate_prefix_binary_sequence c)"
  shows "length p \<le> ceil_log2 c - 1 \<and>
    (\<exists>N0 N1. partition_counter c p = Inr (N0, N1) \<and> 1 \<le> N0 + N1)"
proof -
  have "bit_string p \<and> 2 ^ length p < c"
  proof (cases "p = []")
    case True
    with assms(1) show ?thesis by (simp add: bit_string_def)
  next
    case False
    with assms(2) have "p \<in> set (generate_prefix_binary_sequence c)" by simp
    from generated_prefix_shape[OF this] obtain i where
      "p = bits_msb (length p) i" "2 ^ length p < c" by blast
    then show ?thesis using bit_string_bits_msb[of "length p" i] by simp
  qed
  then have bs: "bit_string p" and lt: "2 ^ length p < c" by simp_all
  from ceil_log2_gt[OF lt] have "length p \<le> ceil_log2 c - 1" by simp
  with partition_counter_ok[OF assms(1) bs lt] show ?thesis by simp
qed

lemma length_generate_prefix_binary_sequence:
  "length (generate_prefix_binary_sequence c) = c - 2"
proof -
  have "c - 2 \<le> length (breadth_first_strings c)"
    using length_levels_ge[of "Suc c" 1] by (simp add: breadth_first_strings_def)
  then show ?thesis by (simp add: generate_prefix_binary_sequence_bfs)
qed

lemma get_angles_ok:
  assumes "2 < c"
  shows "\<exists>angles. get_angles c = Inr angles \<and> length angles = c - 1"
proof -
  from prefixes_counted[OF assms]
  have "\<forall>p\<in>set ([] # generate_prefix_binary_sequence c).
      \<exists>N0 N1. partition_counter c p = Inr (N0, N1) \<and> 1 \<le> N0 + N1" by blast
  from angles_loop_ok[OF this, of "[]"] obtain angles where
    a: "get_angles c = Inr angles"
       "length angles = length ([] # generate_prefix_binary_sequence c)"
    unfolding get_angles_def by auto
  from a(2) assms have "length angles = c - 1"
    by (simp add: length_generate_prefix_binary_sequence)
  with a(1) show ?thesis by blast
qed

lemma angles_of_cardinality_ok:
  assumes "2 < c"
  shows "\<exists>angles. angles_of_cardinality c = Inr angles \<and> int (length angles) = c - 1
     \<and> get_angles (nat c) = Inr angles"
proof -
  from assms have "2 < nat c" by simp
  from get_angles_ok[OF this] obtain angles where
    "get_angles (nat c) = Inr angles" "length angles = nat c - 1" by blast
  with assms show ?thesis by (simp add: angles_of_cardinality_def GroverRudolphAngles_def)
qed

section \<open>The angles\<close>

text \<open>
  Claim C4: for every \<open>card > 2\<close>, \<^verbatim>\<open>GroverRudolphAngles(card).get_angles()\<close> returns a
  list of exactly \<open>card - 1\<close> angles; with \<open>card \<le> 2\<close> the constructor raises, so 3 is the
  smallest cardinality accepted.
\<close>

theorem get_angles_count:
  "(c \<le> 2 \<longrightarrow> GroverRudolphAngles c = Inl ValueError) \<and>
   (2 < c \<longrightarrow> (\<exists>angles. angles_of_cardinality c = Inr angles \<and> int (length angles) = c - 1))"
proof (intro conjI impI)
  assume "c \<le> 2"
  then show "GroverRudolphAngles c = Inl ValueError" by (simp add: GroverRudolphAngles_def)
next
  assume "2 < c"
  from angles_of_cardinality_ok[OF this]
  show "\<exists>angles. angles_of_cardinality c = Inr angles \<and> int (length angles) = c - 1"
    by blast
qed

theorem get_angles_count_witness:
  "GroverRudolphAngles 2 = Inl ValueError \<and>
   (\<exists>angles. angles_of_cardinality 3 = Inr angles \<and> length angles = 2)"
  using get_angles_count[of 2] get_angles_count[of 3] by simp

text \<open>
  Claim C9: for \<open>card = 5\<close> the prefix sequence of the angle calculator, the empty prefix
  followed by \<^verbatim>\<open>generate_prefix_binary_sequence\<close>, is \<^verbatim>\<open>['', '0', '1', '00']\<close> and 4
  angles are produced; in general the generated prefixes are the binary strings
  enumerated breadth-first by increasing length, in increasing numeric order within each
  length, cut after \<open>card - 2\<close> strings (enumerating the lengths up to \<open>card\<close> or beyond
  gives at least that many).
\<close>

theorem prefix_sequence_breadth_first:
  "[] # generate_prefix_binary_sequence 5 = ['''', ''0'', ''1'', ''00''] \<and>
   (\<exists>angles. get_angles 5 = Inr angles \<and> length angles = 4) \<and>
   (\<forall>c m. generate_prefix_binary_sequence c = take (c - 2) (breadth_first_strings (c + m)))"
proof (intro conjI allI)
  show "[] # generate_prefix_binary_sequence 5 = ['''', ''0'', ''1'', ''00'']"
    by (simp add: generate_prefix_binary_sequence_def prefix_loop.simps zfill_def
        bin_digits.simps bit_char_def upt_rec)
  show "\<exists>angles. get_angles 5 = Inr angles \<and> length angles = 4"
    using get_angles_ok[of 5] by simp
  show "generate_prefix_binary_sequence c = take (c - 2) (breadth_first_strings (c + m))"
    for c m
  proof -
    have "[1..<Suc (c + m)] = [1..<Suc c] @ [Suc c..<Suc (c + m)]"
      using upt_add_eq_append[of 1 "Suc c" m] by simp
    then have "breadth_first_strings (c + m) = breadth_first_strings c
        @ concat (map level_strings [Suc c..<Suc (c + m)])"
      by (simp add: breadth_first_strings_def)
    moreover have "c - 2 \<le> length (breadth_first_strings c)"
      using length_levels_ge[of "Suc c" 1] by (simp add: breadth_first_strings_def)
    ultimately show ?thesis by (simp add: generate_prefix_binary_sequence_bfs)
  qed
qed

text \<open>
  Claim C10: for every \<open>card > 2\<close> the error branch of \<^verbatim>\<open>partition_angle\<close> is unreachable
  from \<^verbatim>\<open>get_angles\<close>. Every prefix of the sequence, the empty one included, has length at
  most \<open>\<lceil>log\<^sub>2 card\<rceil> - 1\<close>; \<^verbatim>\<open>partition_counter\<close> returns on it without reading past the
  end of a string, with \<open>N0 + N1 \<ge> 1\<close>; \<^verbatim>\<open>partition_angle\<close> returns an angle on these
  counts; and \<^verbatim>\<open>get_angles\<close> returns.
\<close>

theorem degenerate_partition_unreachable:
  assumes "2 < c"
  shows "(\<forall>p\<in>set ([] # generate_prefix_binary_sequence c).
            int (length p) \<le> \<lceil>log 2 (real c)\<rceil> - 1 \<and>
            (\<exists>N0 N1 angle. partition_counter c p = Inr (N0, N1) \<and> 1 \<le> N0 + N1 \<and>
               partition_angle N0 N1 = Inr angle)) \<and>
         (\<exists>angles. get_angles c = Inr angles)"
proof (intro conjI ballI)
  fix p assume p: "p \<in> set ([] # generate_prefix_binary_sequence c)"
  from assms ceil_log2_bounds[of c] have "1 \<le> ceil_log2 c" by simp
  moreover from prefixes_counted[OF assms p] have "length p \<le> ceil_log2 c - 1" by blast
  ultimately have "int (length p) \<le> int (ceil_log2 c) - 1" by linarith
  moreover from assms have "int (ceil_log2 c) = \<lceil>log 2 (real c)\<rceil>"
    by (intro ceil_log2_eq) simp
  ultimately show "int (length p) \<le> \<lceil>log 2 (real c)\<rceil> - 1" by simp
  from prefixes_counted[OF assms p] obtain N0 N1 where
    pc: "partition_counter c p = Inr (N0, N1)" "1 \<le> N0 + N1" by blast
  from pc(2) have "N0 + N1 \<noteq> 0" by linarith
  then have "partition_angle N0 N1 = Inr (2 * arccos (sqrt (real N0 / real (N0 + N1))))"
    unfolding partition_angle_def by (simp only: if_False)
  with pc show "\<exists>N0 N1 angle. partition_counter c p = Inr (N0, N1) \<and> 1 \<le> N0 + N1 \<and>
      partition_angle N0 N1 = Inr angle" by blast
next
  from get_angles_ok[OF assms] show "\<exists>angles. get_angles c = Inr angles" by blast
qed

theorem degenerate_partition_unreachable_witness:
  "(2::nat) < 5 \<and> ''00'' \<in> set ([] # generate_prefix_binary_sequence 5) \<and>
   int (length ''00'') \<le> \<lceil>log 2 (real (5::nat))\<rceil> - 1 \<and>
   (\<exists>N0 N1 angle. partition_counter 5 ''00'' = Inr (N0, N1) \<and> 1 \<le> N0 + N1 \<and>
      partition_angle N0 N1 = Inr angle) \<and>
   (\<exists>angles. get_angles 5 = Inr angles)"
proof -
  have five: "(2::nat) < 5" by simp
  have seq: "[] # generate_prefix_binary_sequence 5 = ['''', ''0'', ''1'', ''00'']"
    by (simp add: generate_prefix_binary_sequence_def prefix_loop.simps zfill_def
        bin_digits.simps bit_char_def upt_rec)
  then have mem: "''00'' \<in> set ([] # generate_prefix_binary_sequence 5)"
    by (simp only: list.set insert_iff simp_thms)
  from degenerate_partition_unreachable[OF five] mem five show ?thesis
    by blast
qed

section \<open>The control tags and the Grover-Rudolph circuit\<close>

lemma map_raising_all:
  "\<forall>x\<in>set xs. f x = Inr (g x) \<Longrightarrow> map_raising f xs = Inr (map g xs)"
  by (induction xs) simp_all

lemma int_of_char_bits:
  "int_of_char (CHR ''0'') = Inr 0" "int_of_char (CHR ''1'') = Inr 1"
  by (simp_all add: int_of_char_def)

lemma int_of_char_bit_string:
  assumes "bit_string s"
  shows "map_raising int_of_char s = Inr (map bit_value s)"
proof (rule map_raising_all, rule ballI)
  fix x assume "x \<in> set s"
  with assms have "x = CHR ''0'' \<or> x = CHR ''1''" by (simp add: bit_string_def list_all_iff)
  then show "int_of_char x = Inr (bit_value x)"
    by (rule disjE) (simp_all only: int_of_char_bits, simp_all add: bit_value_def)
qed

lemma control_tag_eq:
  assumes "3 \<le> c" and "l = ceil_log2 c - 1"
  shows "control_tag c =
    Inr (l, int c - 1 - 2 ^ l, bits_msb l (c - 1 - 2 ^ l),
         map bit_value (bits_msb l (c - 1 - 2 ^ l)))"
    and "1 \<le> l" and "2 ^ l < c" and "c \<le> 2 * 2 ^ l"
proof -
  from assms ceil_log2_bounds[of c] have b: "c \<le> 2 ^ ceil_log2 c" "1 \<le> ceil_log2 c" "2 ^ l < c"
    by simp_all
  from b(2) assms(2) have cl: "ceil_log2 c = Suc l" by simp
  from b(1) show up: "c \<le> 2 * 2 ^ l" by (simp add: cl)
  show l1: "1 \<le> l"
  proof (rule ccontr)
    assume "\<not> 1 \<le> l"
    then have "l = 0" by simp
    with up assms show False by simp
  qed
  from b(3) show "2 ^ l < c" .
  have R: "int c - 1 - 2 ^ l = int (c - 1 - 2 ^ l)" using b(3) by simp
  have small: "c - 1 - 2 ^ l < 2 ^ l" using up b(3) by linarith
  from l1 small have f: "format_0b l (int (c - 1 - 2 ^ l)) = bits_msb l (c - 1 - 2 ^ l)"
    by (intro format_0b_bits_msb) simp_all
  from assms(1) have "c \<noteq> 0" "c \<noteq> 1" by simp_all
  then have "control_tag c =
      (case map_raising int_of_char (format_0b l (int c - 1 - 2 ^ l)) of
         Inl e \<Rightarrow> Inl e
       | Inr ctrl_sig \<Rightarrow> Inr (l, int c - 1 - 2 ^ l, format_0b l (int c - 1 - 2 ^ l), ctrl_sig))"
    unfolding control_tag_def Let_def assms(2) by (simp only: if_False)
  also have "\<dots> = Inr (l, int c - 1 - 2 ^ l, bits_msb l (c - 1 - 2 ^ l),
         map bit_value (bits_msb l (c - 1 - 2 ^ l)))"
    unfolding R f int_of_char_bit_string[OF bit_string_bits_msb] by (simp only: sum.case)
  finally show "control_tag c =
    Inr (l, int c - 1 - 2 ^ l, bits_msb l (c - 1 - 2 ^ l),
         map bit_value (bits_msb l (c - 1 - 2 ^ l)))" .
qed





text \<open>
  With the logarithm taken as exact, \<^verbatim>\<open>control_tag(c)\<close> returns for every \<open>c \<ge> 3\<close> the
  group number \<open>l = \<lceil>log\<^sub>2 c\<rceil> - 1 = \<lfloor>log\<^sub>2 (c - 1)\<rfloor>\<close>, the position
  \<open>R = (c - 1) - 2\<^sup>l\<close> with \<open>0 \<le> R < 2\<^sup>l\<close>, and the \<open>l\<close>-bit string of \<open>R\<close>.
\<close>

lemma control_tag_exact_log:
  assumes "3 \<le> c"
  shows "\<exists>l R bin_sig ctrl_sig. control_tag c = Inr (l, R, bin_sig, ctrl_sig) \<and>
     int l = \<lceil>log 2 (real c)\<rceil> - 1 \<and> R = int (c - 1) - 2 ^ l \<and> 0 \<le> R \<and> R < 2 ^ l \<and>
     bin_sig = bits_msb l (nat R) \<and> length bin_sig = l \<and>
     int l = \<lfloor>log 2 (real (c - 1))\<rfloor>"
proof -
  define l where "l = ceil_log2 c - 1"
  define R where "R = int c - 1 - 2 ^ l"
  define r where "r = c - 1 - 2 ^ l"
  from control_tag_eq[OF assms l_def] have
    ct: "control_tag c = Inr (l, R, bits_msb l r, map bit_value (bits_msb l r))"
    and l1: "1 \<le> l" and lo: "2 ^ l < c" and up: "c \<le> 2 * 2 ^ l"
    unfolding R_def r_def by blast+
  from assms have "int (ceil_log2 c) = \<lceil>log 2 (real c)\<rceil>" by (intro ceil_log2_eq) simp
  moreover from assms ceil_log2_bounds[of c] have "1 \<le> ceil_log2 c" by simp
  ultimately have a: "int l = \<lceil>log 2 (real c)\<rceil> - 1" by (simp add: l_def)
  have Rn: "R = int r" using lo unfolding R_def r_def by simp
  have R1: "R = int (c - 1) - 2 ^ l" using assms unfolding R_def by simp
  have R0: "0 \<le> R" by (simp add: Rn)
  have rl: "r < 2 ^ l" unfolding r_def using up lo by linarith
  then have "int r < int (2 ^ l)" by (simp only: of_nat_less_iff)
  then have R2: "R < 2 ^ l" unfolding Rn by simp
  have "2 ^ l \<le> c - 1" "c - 1 < 2 ^ (l + 1)" using lo up by simp_all
  from floor_log_nat_eq_if[OF this] have fl: "int l = \<lfloor>log 2 (real (c - 1))\<rfloor>" by simp
  have nR: "bits_msb l r = bits_msb l (nat R)" by (simp add: Rn)
  have len: "length (bits_msb l r) = l" by simp
  from ct a R1 R0 R2 nR len fl show ?thesis by blast
qed




section \<open>The Gray-code gate\<close>

lemma xor_chars_bits:
  assumes "a = CHR ''0'' \<or> a = CHR ''1''" and "b = CHR ''0'' \<or> b = CHR ''1''"
  shows "xor_chars (a, b) = Inr (if a = b then 0 else 1)"
  using assms by (auto simp: xor_chars_def int_of_char_bits)

lemma gray_code_vector_eq:
  assumes "bit_string s1" and "bit_string s2"
  shows "map_raising xor_chars (zip s1 s2) =
    Inr (map (\<lambda>bs. if fst bs = snd bs then 0 else 1) (zip s1 s2))"
proof (rule map_raising_all, rule ballI)
  fix bs assume "bs \<in> set (zip s1 s2)"
  then have m: "(fst bs, snd bs) \<in> set (zip s1 s2)" by simp
  have "fst bs \<in> set s1" "snd bs \<in> set s2"
    by (rule set_zip_leftD[OF m], rule set_zip_rightD[OF m])
  with assms have "fst bs = CHR ''0'' \<or> fst bs = CHR ''1''" "snd bs = CHR ''0'' \<or> snd bs = CHR ''1''"
    by (simp_all add: bit_string_def list_all_iff)
  from xor_chars_bits[OF this] show "xor_chars bs = Inr (if fst bs = snd bs then 0 else 1)"
    by simp
qed

lemma gray_flips_eq:
  "k + length v \<le> length qubits \<Longrightarrow>
   gray_flips qubits k v =
     Inr (map (\<lambda>j. PauliX (qubits ! (k + j))) (filter (\<lambda>j. v ! j = 1) [0..<length v]))"
proof (induction v arbitrary: k)
  case Nil
  then show ?case by simp
next
  case (Cons b rest)
  from Cons.prems have k: "k < length qubits" and le: "Suc k + length rest \<le> length qubits"
    by simp_all
  have up: "[0..<Suc (length rest)] = 0 # map Suc [0..<length rest]"
    by (simp add: upt_conv_Cons map_Suc_upt del: upt_Suc)
  from k have q: "py_nth qubits k = Inr (qubits ! k)" by (simp add: py_nth_def)
  show ?case
    by (simp add: q Cons.IH[OF le] up filter_map comp_def del: upt_Suc)
qed

text \<open>
  Claim C8: for two binary strings of equal length, the decomposition of the Gray-code
  gate applies a bit flip to the qubit at position \<open>i\<close> exactly when the \<open>i\<close>-th bits of the
  two strings differ, and nothing else: the operations are the flips of the differing
  positions, in increasing order.
\<close>

theorem gray_code_gate_flips:
  assumes "bit_string s1" and "bit_string s2"
    and "length s1 = n" and "length s2 = n" and "length qubits = n"
  shows "gray_code_gate_init n s1 s2 =
      Inr \<lparr>gcg_num_qubits = n, binary_str_1 = s1, binary_str_2 = s2\<rparr> \<and>
    gray_code_gate_decompose \<lparr>gcg_num_qubits = n, binary_str_1 = s1, binary_str_2 = s2\<rparr> qubits =
      Inr (map (\<lambda>i. PauliX (qubits ! i)) (filter (\<lambda>i. s1 ! i \<noteq> s2 ! i) [0..<n]))"
proof
  from assms(3,4) show "gray_code_gate_init n s1 s2 =
      Inr \<lparr>gcg_num_qubits = n, binary_str_1 = s1, binary_str_2 = s2\<rparr>"
    by (simp add: gray_code_gate_init_def)
  define v where "v = map (\<lambda>bs. if fst bs = snd bs then 0 else (1::nat)) (zip s1 s2)"
  from assms(3,4) have lv: "length v = n" by (simp add: v_def)
  have f: "filter (\<lambda>j. v ! j = 1) [0..<n] = filter (\<lambda>i. s1 ! i \<noteq> s2 ! i) [0..<n]"
  proof (rule filter_cong[OF refl])
    fix j assume "j \<in> set [0..<n]"
    then have "j < n" by simp
    with assms(3,4) show "(v ! j = 1) = (s1 ! j \<noteq> s2 ! j)" by (simp add: v_def)
  qed
  from assms(5) lv have "0 + length v \<le> length qubits" by simp
  from gray_flips_eq[OF this] have "gray_flips qubits 0 v =
      Inr (map (\<lambda>i. PauliX (qubits ! i)) (filter (\<lambda>i. s1 ! i \<noteq> s2 ! i) [0..<n]))"
    unfolding lv f by simp
  moreover have "gray_code_gate_decompose
      \<lparr>gcg_num_qubits = n, binary_str_1 = s1, binary_str_2 = s2\<rparr> qubits = gray_flips qubits 0 v"
    by (simp add: gray_code_gate_decompose_def gray_code_vector_eq[OF assms(1,2)] v_def)
  ultimately show "gray_code_gate_decompose
      \<lparr>gcg_num_qubits = n, binary_str_1 = s1, binary_str_2 = s2\<rparr> qubits =
      Inr (map (\<lambda>i. PauliX (qubits ! i)) (filter (\<lambda>i. s1 ! i \<noteq> s2 ! i) [0..<n]))"
    by (rule trans[rotated])
qed

theorem gray_code_gate_flips_witness:
  "bit_string ''0011'' \<and> bit_string ''1001'' \<and> length ''0011'' = 4 \<and> length ''1001'' = 4 \<and>
   length [XQubit 0, XQubit 1, XQubit 2, XQubit 3] = 4 \<and>
   gray_code_gate_init 4 ''0011'' ''1001'' =
      Inr \<lparr>gcg_num_qubits = 4, binary_str_1 = ''0011'', binary_str_2 = ''1001''\<rparr> \<and>
   gray_code_gate_decompose \<lparr>gcg_num_qubits = 4, binary_str_1 = ''0011'', binary_str_2 = ''1001''\<rparr>
      [XQubit 0, XQubit 1, XQubit 2, XQubit 3] = Inr [PauliX (XQubit 0), PauliX (XQubit 2)]"
proof -
  have h: "bit_string ''0011''" "bit_string ''1001''" "length ''0011'' = 4" "length ''1001'' = 4"
    "length [XQubit 0, XQubit 1, XQubit 2, XQubit 3] = 4"
    by (simp_all add: bit_string_def)
  have "map (\<lambda>i. PauliX ([XQubit 0, XQubit 1, XQubit 2, XQubit 3] ! i))
      (filter (\<lambda>i. ''0011'' ! i \<noteq> ''1001'' ! i) [0..<4]) = [PauliX (XQubit 0), PauliX (XQubit 2)]"
    by (simp add: upt_rec)
  with gray_code_gate_flips[OF h] h show ?thesis by simp
qed

section \<open>The gate of one permutation cycle\<close>

lemma cycle_element_string:
  assumes "0 < n" and "0 \<le> x" and "x < 2 ^ n"
  shows "zfill n (bin_tail x) = bits_msb n (nat x)"
proof -
  from assms(2,3) have "nat x < 2 ^ n"
    by (metis nat_less_iff of_nat_numeral of_nat_power)
  from format_0b_bits_msb[OF assms(1) this] assms(2) show ?thesis
    by (simp add: bin_tail_def zfill_bin_digits)
qed

lemma controlled_x_ok:
  assumes "n < length qubits"
  shows "controlled_on ControlledX n (map bit_value (bits_msb n i)) (take n qubits) (qubits ! n) =
    Inr (ControlledX (map bit_value (bits_msb n i)) (take n qubits) (qubits ! n))"
  using assms by (simp add: controlled_on_def)

lemma cycle_step_eq:
  assumes n: "0 < n" and q: "n < length qubits"
    and cyc: "\<forall>x\<in>set cycle. 0 \<le> x \<and> x < 2 ^ n" and k: "k < length cycle"
  shows "cycle_step \<lparr>pcg_n = n, pcg_cycle = cycle\<rparr> (take n qubits) (qubits ! n) k =
    Inr [ControlledX (map bit_value (bits_msb n (nat (cycle ! k)))) (take n qubits) (qubits ! n),
         ControlledGrayCode
           \<lparr>gcg_num_qubits = n, binary_str_1 = bits_msb n (nat (cycle ! k)),
              binary_str_2 = bits_msb n (nat (cycle ! ((k + 1) mod length cycle)))\<rparr>
           [1] (qubits ! n) (take n qubits)]"
proof -
  from k have "0 < length cycle" by (rule le_less_trans[OF le0])
  then have "Suc k mod length cycle < length cycle" by (rule mod_less_divisor)
  with cyc have b: "0 \<le> cycle ! (Suc k mod length cycle)"
    "cycle ! (Suc k mod length cycle) < 2 ^ n" by (simp_all only: nth_mem)
  from k cyc have a: "0 \<le> cycle ! k" "cycle ! k < 2 ^ n" by simp_all
  note sa = cycle_element_string[OF n a]
  note sb = cycle_element_string[OF n b]
  show ?thesis
    unfolding cycle_step_def Let_def
    by (simp add: sa sb int_of_char_bit_string[OF bit_string_bits_msb] controlled_x_ok[OF q]
        gray_code_gate_init_def)
qed

lemma cycle_steps_eq:
  assumes n: "0 < n" and q: "n < length qubits"
    and cyc: "\<forall>x\<in>set cycle. 0 \<le> x \<and> x < 2 ^ n" and ks: "\<forall>k\<in>set ks. k < length cycle"
  shows "cycle_steps \<lparr>pcg_n = n, pcg_cycle = cycle\<rparr> (take n qubits) (qubits ! n) ks =
    Inr (concat (map (\<lambda>k.
      [ControlledX (map bit_value (bits_msb n (nat (cycle ! k)))) (take n qubits) (qubits ! n),
       ControlledGrayCode
         \<lparr>gcg_num_qubits = n, binary_str_1 = bits_msb n (nat (cycle ! k)),
            binary_str_2 = bits_msb n (nat (cycle ! ((k + 1) mod length cycle)))\<rparr>
         [1] (qubits ! n) (take n qubits)]) ks))"
  using ks
proof (induction ks)
  case Nil
  then show ?case by simp
next
  case (Cons k ks)
  then have "k < length cycle" by simp
  from cycle_step_eq[OF n q cyc this] Cons show ?case by simp
qed

lemma length_concat_pairs: "length (concat (map (\<lambda>k. [f k, g k]) ks)) = 2 * length ks"
  by (induction ks) simp_all

text \<open>
  Claim C6, as the code has it: for a non-empty cycle of length \<open>l\<close> with all elements in
  \<open>[0, 2\<^sup>n)\<close>, \<open>n \<ge> 1\<close>, on \<open>n\<close> data qubits and the ancilla, the decomposition consists of
  exactly \<open>2 l + 1\<close> operations: for each element the flip of the ancilla controlled by
  the element's bit pattern, then the Gray-code gate to the next element controlled by
  the ancilla, and at the end the flip controlled by the first element's pattern. Every
  one of them uses the same ancilla, the qubit after the data qubits.
\<close>

theorem permutation_cycle_gate_ops:
  assumes n: "1 \<le> n" and ne: "cycle \<noteq> []"
    and cyc: "\<forall>x\<in>set cycle. 0 \<le> x \<and> x < 2 ^ n" and q: "length qubits = n + 1"
  shows "\<exists>ops.
    permutation_cycle_gate_init n cycle = Inr \<lparr>pcg_n = n, pcg_cycle = cycle\<rparr> \<and>
    permutation_cycle_gate_decompose \<lparr>pcg_n = n, pcg_cycle = cycle\<rparr> qubits = Inr ops \<and>
    length ops = 2 * length cycle + 1 \<and>
    ops = concat (map (\<lambda>k.
        [ControlledX (map bit_value (bits_msb n (nat (cycle ! k)))) (take n qubits) (qubits ! n),
         ControlledGrayCode
           \<lparr>gcg_num_qubits = n, binary_str_1 = bits_msb n (nat (cycle ! k)),
              binary_str_2 = bits_msb n (nat (cycle ! ((k + 1) mod length cycle)))\<rparr>
           [1] (qubits ! n) (take n qubits)]) [0..<length cycle])
      @ [ControlledX (map bit_value (bits_msb n (nat (cycle ! 0)))) (take n qubits) (qubits ! n)]"
proof -
  from n have n0: "0 < n" by simp
  from q have ql: "n < length qubits" by simp
  have init: "permutation_cycle_gate_init n cycle = Inr \<lparr>pcg_n = n, pcg_cycle = cycle\<rparr>"
    using cyc by (simp add: permutation_cycle_gate_init_def list_all_iff)
  have ks: "\<forall>k\<in>set [0..<length cycle]. k < length cycle" by simp
  note steps = cycle_steps_eq[OF n0 ql cyc ks]
  from ne have c0: "py_nth cycle 0 = Inr (cycle ! 0)" by (simp add: py_nth_def)
  from ne cyc have "0 \<le> cycle ! 0" "cycle ! 0 < 2 ^ n" by simp_all
  note s0 = cycle_element_string[OF n0 this]
  from ql have anc: "py_nth qubits n = Inr (qubits ! n)" by (simp add: py_nth_def)
  have dec: "permutation_cycle_gate_decompose \<lparr>pcg_n = n, pcg_cycle = cycle\<rparr> qubits =
    Inr (concat (map (\<lambda>k.
        [ControlledX (map bit_value (bits_msb n (nat (cycle ! k)))) (take n qubits) (qubits ! n),
         ControlledGrayCode
           \<lparr>gcg_num_qubits = n, binary_str_1 = bits_msb n (nat (cycle ! k)),
              binary_str_2 = bits_msb n (nat (cycle ! ((k + 1) mod length cycle)))\<rparr>
           [1] (qubits ! n) (take n qubits)]) [0..<length cycle])
      @ [ControlledX (map bit_value (bits_msb n (nat (cycle ! 0)))) (take n qubits) (qubits ! n)])"
    unfolding permutation_cycle_gate_decompose_def Let_def
    by (simp add: anc steps c0 s0 int_of_char_bit_string[OF bit_string_bits_msb]
        controlled_x_ok[OF ql])
  show ?thesis
    by (intro exI conjI, rule init, rule dec) (simp_all add: length_concat_pairs)
qed

theorem permutation_cycle_gate_ops_witness:
  "\<exists>ops.
     permutation_cycle_gate_init 4 [0, 1, 3, 9] = Inr \<lparr>pcg_n = 4, pcg_cycle = [0, 1, 3, 9]\<rparr> \<and>
     permutation_cycle_gate_decompose \<lparr>pcg_n = 4, pcg_cycle = [0, 1, 3, 9]\<rparr>
       [XQubit 0, XQubit 1, XQubit 2, XQubit 3, AncillaQubit] = Inr ops \<and>
     length ops = 9"
proof -
  have h: "(1::nat) \<le> 4" "[0, 1, 3, 9] \<noteq> ([] :: int list)"
    "\<forall>x\<in>set [0, 1, 3, 9 :: int]. 0 \<le> x \<and> x < 2 ^ 4"
    "length [XQubit 0, XQubit 1, XQubit 2, XQubit 3, AncillaQubit] = 4 + 1"
    by simp_all
  from permutation_cycle_gate_ops[OF h] obtain ops where
    "permutation_cycle_gate_init 4 [0, 1, 3, 9] = Inr \<lparr>pcg_n = 4, pcg_cycle = [0, 1, 3, 9]\<rparr>"
    "permutation_cycle_gate_decompose \<lparr>pcg_n = 4, pcg_cycle = [0, 1, 3, 9]\<rparr>
       [XQubit 0, XQubit 1, XQubit 2, XQubit 3, AncillaQubit] = Inr ops"
    "length ops = 2 * length [0, 1, 3, 9 :: int] + 1"
    by blast
  then show ?thesis by simp
qed

text \<open>
  Claim C6 as stated (\<open>l + 1\<close> operations) fails on the cycle \<open>[0, 1]\<close> over one data
  qubit: the decomposition has five operations, not three.
\<close>

theorem cycle_gate_two_cycle_has_five_operations:
  "permutation_cycle_gate_init 1 [0, 1] = Inr \<lparr>pcg_n = 1, pcg_cycle = [0, 1]\<rparr> \<and>
   permutation_cycle_gate_decompose \<lparr>pcg_n = 1, pcg_cycle = [0, 1]\<rparr> [XQubit 0, AncillaQubit] =
     Inr [ControlledX [0] [XQubit 0] AncillaQubit,
          ControlledGrayCode \<lparr>gcg_num_qubits = 1, binary_str_1 = ''0'', binary_str_2 = ''1''\<rparr>
            [1] AncillaQubit [XQubit 0],
          ControlledX [1] [XQubit 0] AncillaQubit,
          ControlledGrayCode \<lparr>gcg_num_qubits = 1, binary_str_1 = ''1'', binary_str_2 = ''0''\<rparr>
            [1] AncillaQubit [XQubit 0],
          ControlledX [0] [XQubit 0] AncillaQubit] \<and>
   length [0, 1 :: int] + 1 = 3"
  by (simp add: permutation_cycle_gate_init_def permutation_cycle_gate_decompose_def
      py_nth_def cycle_step_def upt_rec zfill_def bin_tail_def bin_digits.simps bit_char_def
      int_of_char_bits controlled_on_def gray_code_gate_init_def Let_def)

section \<open>The checks of the entry point\<close>

lemma Max_exceeds:
  assumes "x \<in> set target" and "b < x"
  shows "b < Max (set target)"
proof -
  from assms(1) have "x \<le> Max (set target)" by (intro Max_ge) simp_all
  with assms(2) show ?thesis by simp
qed

text \<open>
  Claim C7, as the code has it: the checks of \<^verbatim>\<open>main\<close> raise when the length of the target
  subset differs from the cardinality, when the subset is empty, and when some element is
  greater than \<open>2\<^sup>n\<close> for the number \<open>n \<ge> 0\<close> of qubits; they pass every non-empty subset
  of the right length whose elements are non-negative and below \<open>2\<^sup>n\<close>, whether or not the
  elements are distinct.
\<close>

theorem main_error_checking_amended:
  "(int (length target) \<noteq> cardinality \<longrightarrow>
      main_error_checking num_qubits cardinality target = Inl ValueError) \<and>
   (target = [] \<longrightarrow> main_error_checking num_qubits cardinality target = Inl ValueError) \<and>
   (0 \<le> num_qubits \<and> (\<exists>x\<in>set target. 2 ^ nat num_qubits < x) \<longrightarrow>
      main_error_checking num_qubits cardinality target = Inl ValueError) \<and>
   (int (length target) = cardinality \<and> target \<noteq> [] \<and> 0 \<le> num_qubits \<and>
    (\<forall>x\<in>set target. 0 \<le> x \<and> x < 2 ^ nat num_qubits) \<longrightarrow>
      main_error_checking num_qubits cardinality target = Inr ())"
proof (intro conjI impI)
  assume "int (length target) \<noteq> cardinality"
  then show "main_error_checking num_qubits cardinality target = Inl ValueError"
    by (simp add: main_error_checking_def)
next
  assume "target = []"
  then show "main_error_checking num_qubits cardinality target = Inl ValueError"
    by (simp add: main_error_checking_def)
next
  assume a: "0 \<le> num_qubits \<and> (\<exists>x\<in>set target. 2 ^ nat num_qubits < x)"
  then obtain x where x: "x \<in> set target" "2 ^ nat num_qubits < x" by blast
  from Max_exceeds[OF x] a have "exceeds_power_of_2 (Max (set target)) num_qubits"
    by (simp add: exceeds_power_of_2_def)
  then show "main_error_checking num_qubits cardinality target = Inl ValueError"
    by (simp add: main_error_checking_def)
next
  assume a: "int (length target) = cardinality \<and> target \<noteq> [] \<and> 0 \<le> num_qubits \<and>
    (\<forall>x\<in>set target. 0 \<le> x \<and> x < 2 ^ nat num_qubits)"
  then have "Max (set target) \<in> set target" by (intro Max_in) simp_all
  with a have "Max (set target) < 2 ^ nat num_qubits" by blast
  then have "\<not> 2 ^ nat num_qubits < Max (set target)" by (simp only: not_less less_imp_le)
  moreover from a have "0 \<le> num_qubits" by blast
  ultimately have "\<not> exceeds_power_of_2 (Max (set target)) num_qubits"
    unfolding exceeds_power_of_2_def by simp
  with a show "main_error_checking num_qubits cardinality target = Inr ()"
    by (simp add: main_error_checking_def)
qed

theorem main_error_checking_amended_witness:
  "main_error_checking 3 3 [1, 2] = Inl ValueError \<and>
   main_error_checking 3 0 [] = Inl ValueError \<and>
   main_error_checking 3 3 [0, 1, 9] = Inl ValueError \<and>
   main_error_checking 3 3 [5, 5, 6] = Inr ()"
  using main_error_checking_amended[of "[1, 2]" 3 3]
    main_error_checking_amended[of "[]" 0 3]
    main_error_checking_amended[of "[0, 1, 9]" 3 3]
    main_error_checking_amended[of "[5, 5, 6]" 3 3]
  by simp

text \<open>
  Claim C7 as stated fails on a subset with a repeated element: \<open>[5, 5, 6]\<close> on three
  qubits passes the checks, and \<^verbatim>\<open>main\<close> goes on to decompose it into cycles.
\<close>

theorem main_accepts_repeated_elements:
  "main_error_checking 3 3 [5, 5, 6] = Inr () \<and> \<not> distinct [5, 5, 6 :: int] \<and>
   permutation_cycles \<lparr>gr_subset = [0, 1, 2], target_subset = [5, 5, 6]\<rparr> =
     Some (Inr [[0, 5], [1, 5], [2, 6]])"
  by (simp add: main_error_checking_def exceeds_power_of_2_def permutation_cycles_def
      follow_cycle.simps py_index_def upt_rec)

text \<open>
  The bound on the elements is tested with \<^verbatim>\<open>>\<close> although the message names
  \<open>2\<^sup>n - 1\<close>, and no test looks at the sign: \<open>2\<^sup>n\<close> itself and negative elements pass.
\<close>

lemma main_accepts_power_of_2_and_negative:
  "main_error_checking 2 3 [0, 1, 4] = Inr () \<and> main_error_checking 2 3 [0, - 1, 3] = Inr ()"
  by (simp add: main_error_checking_def exceeds_power_of_2_def)

section \<open>The control tag in double precision\<close>

text \<open>
  Between two powers of two the logarithm of a whole number stays away from the whole
  numbers: by at least \<open>2\<^sup>-\<^sup>k\<close> below \<open>2\<^sup>k\<close>.
\<close>

lemma log2_above_power:
  fixes j c :: nat
  assumes j: "1 \<le> j" and c: "2 ^ j + 1 \<le> c"
  shows "real j + 1 / 2 ^ (j + 1) \<le> log 2 (real c)"
proof -
  define t :: real where "t = 1 / 2 ^ j"
  have t0: "0 < t" by (simp add: t_def)
  from j have "(2::real) ^ 1 \<le> 2 ^ j" by (intro power_increasing) simp_all
  then have th: "t \<le> 1 / 2" by (simp add: t_def field_simps)
  then have t1: "t \<le> 1" by simp
  from t0 th have "t * t \<le> t * (1 / 2)" by (intro mult_left_mono) simp_all
  then have sq: "t\<^sup>2 \<le> t / 2" by (simp add: power2_eq_square)
  from ln_one_plus_pos_lower_bound[of t] t0 t1 have "t - t\<^sup>2 \<le> ln (1 + t)" by simp
  with sq have lnb: "t / 2 \<le> ln (1 + t)" by linarith
  have ln2: "0 < ln (2::real)" "ln (2::real) \<le> 1" using ln_2_less_1 by simp_all
  from lnb t0 have lnpos: "0 \<le> ln (1 + t)" by linarith
  have "ln (1 + t) \<le> ln (1 + t) / ln 2"
    using lnpos ln2 by (simp add: field_simps mult_left_le)
  with lnb have lb: "t / 2 \<le> log 2 (1 + t)" unfolding log_def by linarith
  have "real (2 ^ j + 1) = 2 ^ j * (1 + t)" by (simp add: t_def field_simps)
  then have "log 2 (real (2 ^ j + 1)) = log 2 (2 ^ j) + log 2 (1 + t)"
    using t0 by (simp add: log_mult)
  also have "log 2 ((2::real) ^ j) = real j" by simp
  finally have e: "log 2 (real (2 ^ j + 1)) = real j + log 2 (1 + t)" .
  from c have le: "real (2 ^ j + 1) \<le> real c" by (simp only: of_nat_le_iff)
  have pos: "0 < real (2 ^ j + 1)" unfolding of_nat_0_less_iff by simp
  have "log 2 (real (2 ^ j + 1)) \<le> log 2 (real c)"
    by (rule log_mono[OF _ pos le]) simp
  with e lb have "real j + t / 2 \<le> log 2 (real c)" by linarith
  then show ?thesis by (simp add: t_def)
qed

lemma log2_below_power:
  fixes k c :: nat
  assumes c1: "1 \<le> c" and c: "c + 1 \<le> 2 ^ k"
  shows "log 2 (real c) \<le> real k - 1 / 2 ^ k"
proof -
  define s :: real where "s = 1 / 2 ^ k"
  have s0: "0 < s" by (simp add: s_def)
  from c c1 have "(2::nat) \<le> 2 ^ k" by linarith
  then have "real 2 \<le> real (2 ^ k)" by (simp only: of_nat_le_iff)
  then have "(2::real) \<le> 2 ^ k" by simp
  then have s1: "s \<le> 1 / 2" by (simp add: s_def field_simps)
  from ln_one_minus_pos_upper_bound[of s] s0 s1 have lnb: "ln (1 - s) \<le> - s" by simp
  have ln2: "0 < ln (2::real)" "ln (2::real) \<le> 1" using ln_2_less_1 by simp_all
  from lnb s0 have neg: "ln (1 - s) \<le> 0" by linarith
  from ln2(2) neg have "ln (1 - s) * 1 \<le> ln (1 - s) * ln 2"
    by (rule mult_left_mono_neg)
  with ln2(1) have "ln (1 - s) / ln 2 \<le> ln (1 - s)"
    by (simp add: field_simps)
  with lnb have ub: "log 2 (1 - s) \<le> - s" unfolding log_def by linarith
  from c have "real (c + 1) \<le> real (2 ^ k)" by (simp only: of_nat_le_iff)
  then have cle: "real c \<le> 2 ^ k - 1" by simp
  have one: "(2::real) ^ k - 1 = 2 ^ k * (1 - s)" by (simp add: s_def field_simps)
  from c1 cle have pos: "0 < (2::real) ^ k - 1" by linarith
  from s1 have spos: "0 < 1 - s" by simp
  from c1 have rpos: "0 < real c" by simp
  have "log 2 (real c) \<le> log 2 (2 ^ k - 1)"
    by (rule log_mono[OF _ rpos cle]) simp
  also have "\<dots> = log 2 (2 ^ k) + log 2 (1 - s)"
    unfolding one using spos by (simp add: log_mult)
  also have "log 2 ((2::real) ^ k) = real k" by simp
  finally have "log 2 (real c) \<le> real k + log 2 (1 - s)" .
  with ub show ?thesis by (simp add: s_def)
qed

lemma double_shift_small: "c < 2 ^ 53 \<Longrightarrow> double_shift c = 0"
  by (subst double_shift.simps) (simp only: if_True)

lemma double_of_nat_small: "c < 2 ^ 53 \<Longrightarrow> double_of_nat c = c"
  by (simp add: double_of_nat_def double_shift_small)

lemma ceil_library_log:
  assumes acc: "log2_accurate lg" and c2: "2 \<le> c" and cb: "c \<le> 2 ^ 46"
  shows "\<lceil>lg c\<rceil> = int (ceil_log2 c)"
proof -
  define k where "k = ceil_log2 c"
  from c2 ceil_log2_bounds[of c] have b: "c \<le> 2 ^ k" "1 \<le> k" "2 ^ (k - 1) < c"
    by (simp_all add: k_def)
  from b(3) cb have "(2::nat) ^ (k - 1) < 2 ^ 46" by (rule less_le_trans)
  then have k46: "k - 1 < 46" by (rule power_less_imp_less_exp[rotated]) simp
  show ?thesis
  proof (cases "c = 2 ^ k")
    case True
    with acc have "lg c = real k" by (simp add: log2_accurate_def)
    then show ?thesis by (simp add: k_def)
  next
    case False
    with b(1) have cl: "c + 1 \<le> 2 ^ k" by simp
    define j where "j = k - 1"
    from b(2) have kj: "k = j + 1" by (simp add: j_def)
    have j1: "1 \<le> j"
    proof (rule ccontr)
      assume "\<not> 1 \<le> j"
      then have "j = 0" by simp
      with b(3) cl kj show False by simp
    qed
    from b(3) have cj: "2 ^ j + 1 \<le> c" by (simp add: j_def)
    from c2 have c1: "1 \<le> c" by simp
    note lo = log2_above_power[OF j1 cj]
    note up = log2_below_power[OF c1 cl]
    from cb have "c < 2 ^ 64"
      by (rule le_less_trans) simp
    with acc c1 have err0: "\<bar>lg c - log 2 (real c)\<bar> \<le> 1 / 2 ^ 47"
      by (simp add: log2_accurate_def)
    define a :: real where "a = 1 / 2 ^ k"
    define e46 :: real where "e46 = 1 / 2 ^ 46"
    define e47 :: real where "e47 = 1 / 2 ^ 47"
    from err0 have err: "\<bar>lg c - log 2 (real c)\<bar> \<le> e47" by (simp only: e47_def)
    from k46 kj have "k \<le> 46" by simp
    then have "(2::real) ^ k \<le> 2 ^ 46" by (intro power_increasing) simp_all
    then have m: "e46 \<le> a" unfolding e46_def a_def
      by (intro divide_left_mono) simp_all
    have e: "e47 < e46" by (simp add: e46_def e47_def)
    from lo kj have lo': "real j + a \<le> log 2 (real c)" by (simp add: a_def)
    from up have up': "log 2 (real c) \<le> real k - a" by (simp only: a_def)
    have rk: "real k = real j + 1" by (simp add: kj)
    from lo' m e err have "real j < lg c" by linarith
    moreover from up' m e err rk have "lg c \<le> real j + 1" by linarith
    ultimately have "\<lceil>lg c\<rceil> = int j + 1"
      using ceiling_eq[of "int j" "lg c"] by simp
    with kj show ?thesis by (simp add: k_def)
  qed
qed

lemma control_tag_double_exact:
  assumes acc: "log2_accurate lg" and c2: "2 \<le> c" and cb: "c \<le> 2 ^ 46"
  shows "control_tag_double lg c = control_tag c"
proof -
  from cb have c53: "c < 2 ^ 53" by (rule le_less_trans) simp
  from cb have c64: "\<not> 2 ^ 64 \<le> c" by simp
  from c2 have c0: "c \<noteq> 0" "c \<noteq> 1" by simp_all
  from c2 ceil_log2_bounds[of c] have k1: "1 \<le> ceil_log2 c" by simp
  have l: "\<lceil>lg (double_of_nat c)\<rceil> - 1 = int (ceil_log2 c - 1)"
    using k1 by (simp add: double_of_nat_small[OF c53] ceil_library_log[OF acc c2 cb])
  show ?thesis
    unfolding control_tag_double_def control_tag_def Let_def l nat_int
    using c0 c64 by simp
qed

text \<open>
  Claim C5, as the code has it: for every step \<open>c\<close> with \<open>3 \<le> c \<le> 2\<^sup>4\<^sup>6\<close>, and a library
  logarithm that is exact on the powers of two and accurate to one unit in the last
  place, \<^verbatim>\<open>control_tag(c)\<close> returns \<open>l = \<lceil>log\<^sub>2 c\<rceil> - 1\<close>, \<open>R = (c - 1) - 2\<^sup>l\<close> with
  \<open>0 \<le> R < 2\<^sup>l\<close>, and \<^verbatim>\<open>bin_sig\<close> the binary rendering of \<open>R\<close> on exactly \<open>l\<close> characters;
  this \<open>l\<close> is also \<open>\<lfloor>log\<^sub>2 (c - 1)\<rfloor>\<close>.
\<close>

theorem control_tag_double_correct:
  assumes "log2_accurate lg" and "3 \<le> c" and "c \<le> 2 ^ 46"
  shows "\<exists>l R bin_sig ctrl_sig. control_tag_double lg c = Inr (l, R, bin_sig, ctrl_sig) \<and>
     int l = \<lceil>log 2 (real c)\<rceil> - 1 \<and> R = int (c - 1) - 2 ^ l \<and> 0 \<le> R \<and> R < 2 ^ l \<and>
     bin_sig = bits_msb l (nat R) \<and> length bin_sig = l \<and>
     int l = \<lfloor>log 2 (real (c - 1))\<rfloor>"
proof -
  from assms(2) have "2 \<le> c" by simp
  from control_tag_double_exact[OF assms(1) this assms(3)] control_tag_exact_log[OF assms(2)]
  show ?thesis by simp
qed

lemma exact_log2_accurate: "log2_accurate (log 2 \<circ> real)"
  by (simp add: log2_accurate_def)

theorem control_tag_double_correct_witness:
  "(3::nat) \<le> 6 \<and> (6::nat) \<le> 2 ^ 46 \<and>
   (\<exists>l R bin_sig ctrl_sig.
     control_tag_double (log 2 \<circ> real) 6 = Inr (l, R, bin_sig, ctrl_sig) \<and>
     int l = \<lceil>log 2 (real (6::nat))\<rceil> - 1 \<and> R = int (6 - 1) - 2 ^ l \<and> 0 \<le> R \<and> R < 2 ^ l \<and>
     bin_sig = bits_msb l (nat R) \<and> length bin_sig = l \<and>
     int l = \<lfloor>log 2 (real ((6::nat) - 1))\<rfloor>)"
proof -
  have h: "(3::nat) \<le> 6" "(6::nat) \<le> 2 ^ 46" by simp_all
  from control_tag_double_correct[OF exact_log2_accurate h] h show ?thesis by blast
qed

lemma bin_digits_power2: "bin_digits (2 ^ k) = CHR ''1'' # replicate k (CHR ''0'')"
proof (induction k)
  case 0
  show ?case by (simp add: bin_digits.simps bit_char_def)
next
  case (Suc k)
  have "\<not> (2::nat) ^ Suc k < 2" by simp
  then have "bin_digits (2 ^ Suc k) = bin_digits (2 ^ Suc k div 2) @ [bit_char (2 ^ Suc k mod 2)]"
    by (subst bin_digits.simps) (simp only: if_False)
  with Suc show ?case by (simp add: bit_char_def replicate_append_same)
qed

lemma double_of_nat_tie: "double_of_nat (2 ^ 53 + 1) = 2 ^ 53"
proof -
  have "double_shift (2 ^ 53 + 1) = Suc (double_shift ((2 ^ 53 + 1) div 2))"
    by (subst double_shift.simps) simp
  also have "(2 ^ 53 + 1) div 2 = (2::nat) ^ 52" by simp
  also have "double_shift (2 ^ 52) = 0" by (rule double_shift_small) simp
  finally have e: "double_shift (2 ^ 53 + 1) = 1" by simp
  show ?thesis unfolding double_of_nat_def e Let_def by simp
qed

text \<open>
  Claim C5 as stated, for every \<open>c \<ge> 3\<close>, fails at \<open>c = 2\<^sup>5\<^sup>3 + 1\<close>: the conversion to a
  double rounds \<open>c\<close> to \<open>2\<^sup>5\<^sup>3\<close>, whose logarithm is 53, so that \<open>l = 52\<close> where
  \<open>\<lceil>log\<^sub>2 c\<rceil> - 1 = 53\<close>, \<open>R = 2\<^sup>5\<^sup>2\<close> is not below \<open>2\<^sup>l\<close>, and \<^verbatim>\<open>bin_sig\<close> has 53
  characters.
\<close>

theorem control_tag_double_beyond_precision:
  "control_tag_double (log 2 \<circ> real) (2 ^ 53 + 1) =
     Inr (52, 2 ^ 52, CHR ''1'' # replicate 52 (CHR ''0''), 1 # replicate 52 0) \<and>
   \<lceil>log 2 (real (2 ^ 53 + 1 :: nat))\<rceil> - 1 = 53 \<and>
   length (CHR ''1'' # replicate 52 (CHR ''0'')) = 53"
proof (intro conjI)
  have lg: "(log 2 \<circ> real) (double_of_nat (2 ^ 53 + 1)) = 53"
    unfolding double_of_nat_tie comp_def using log2_of_power_eq[of "2 ^ 53" 53] by simp
  have l: "\<lceil>(log 2 \<circ> real) (double_of_nat (2 ^ 53 + 1))\<rceil> - 1 = 52"
    unfolding lg by simp
  have R: "int (2 ^ 53 + 1) - 1 - 2 ^ nat 52 = 2 ^ 52" by simp
  have f: "format_0b (nat 52) (2 ^ 52) = CHR ''1'' # replicate 52 (CHR ''0'')"
  proof -
    have n: "nat ((2::int) ^ 52) = 2 ^ 52" by simp
    show ?thesis
      unfolding format_0b_def n bin_digits_power2 by simp
  qed
  have bs: "bit_string (CHR ''1'' # replicate 52 (CHR ''0''))"
    by (simp add: bit_string_def list_all_iff)
  have m: "map_raising int_of_char (CHR ''1'' # replicate 52 (CHR ''0'')) =
      Inr (1 # replicate 52 0)"
    unfolding int_of_char_bit_string[OF bs] by (simp add: bit_value_def)
  have c: "(2::nat) ^ 53 + 1 \<noteq> 0" "\<not> (2::nat) ^ 64 \<le> 2 ^ 53 + 1" by simp_all
  show "control_tag_double (log 2 \<circ> real) (2 ^ 53 + 1) =
     Inr (52, 2 ^ 52, CHR ''1'' # replicate 52 (CHR ''0''), 1 # replicate 52 0)"
    unfolding control_tag_double_def Let_def l R f m
    using c by simp
  have "\<lceil>log (real (2::nat)) (real (2 ^ 53 + 1 :: nat))\<rceil> = int 53 + 1"
    by (rule ceiling_log_nat_eq_if) simp_all
  then show "\<lceil>log 2 (real (2 ^ 53 + 1 :: nat))\<rceil> - 1 = 53" by simp
  show "length (CHR ''1'' # replicate 52 (CHR ''0'')) = 53" by simp
qed

end
